theory Spec2Isabelle
  imports Complex_Main "HOL-Library.List_Lexorder" "HOL-Library.Char_ord"
begin

section \<open>Strings, decimal numbers and the ticket-id array codec\<close>

text \<open>
  Go strings are byte sequences; they are modelled as \<open>string\<close> (a list of 8-bit
  characters). Go's \<open>int\<close> is the 64-bit signed integer of the target platform; it is
  modelled as \<open>int\<close>, and the range is written out where the code depends on it
  (\<open>strconv.Atoi\<close> fails outside it).
\<close>

definition is_go_int :: "int \<Rightarrow> bool" where
  "is_go_int i \<longleftrightarrow> - (2 ^ 63) \<le> i \<and> i < 2 ^ 63"

text \<open>The test \<open>char >= '0' && char <= '9'\<close> of \<open>parseTicketIDs\<close>.\<close>

definition isDigit :: "char \<Rightarrow> bool" where
  "isDigit c \<longleftrightarrow> CHR ''0'' \<le> c \<and> c \<le> CHR ''9''"

text \<open>\<open>fmt.Sprintf("%d", n)\<close>: the decimal digits of a natural number, most significant first.\<close>

fun formatNat :: "nat \<Rightarrow> string" where
  "formatNat n =
     (if n < 10 then [char_of (48 + n)]
      else formatNat (n div 10) @ [char_of (48 + n mod 10)])"

declare formatNat.simps [simp del]

definition formatInt :: "int \<Rightarrow> string" where
  "formatInt i = (if i < 0 then CHR ''-'' # formatNat (nat (- i)) else formatNat (nat i))"

text \<open>The value of a digit string, as the loop \<open>n = n*10 + int(ch - '0')\<close> accumulates it.\<close>

definition digitsVal :: "string \<Rightarrow> int" where
  "digitsVal ds = foldl (\<lambda>n ch. n * 10 + (of_char ch - 48)) 0 ds"

text \<open>
  \<open>strconv.Atoi\<close>: an optional sign, then one or more decimal digits and nothing else;
  a value outside the 64-bit range is a range error. Both errors are \<open>None\<close>.
\<close>

definition Atoi :: "string \<Rightarrow> int option" where
  "Atoi s =
     (case s of
        [] \<Rightarrow> None
      | c # r \<Rightarrow>
          let neg = (c = CHR ''-'');
              ds = (if c = CHR ''-'' \<or> c = CHR ''+'' then r else s)
          in if ds = [] \<or> \<not> list_all isDigit ds then None
             else let v = digitsVal ds
                  in if neg then (if v \<le> 2 ^ 63 then Some (- v) else None)
                     else (if v < 2 ^ 63 then Some v else None))"

text \<open>
  \<open>joinInts\<close>: the first number, then for each further number the separator and the
  number, appended to the result in the order of the slice.
\<close>

definition joinInts :: "int list \<Rightarrow> string \<Rightarrow> string" where
  "joinInts ints sep =
     (case ints of
        [] \<Rightarrow> []
      | x # xs \<Rightarrow> foldl (\<lambda>result i. result @ sep @ formatInt i) (formatInt x) xs)"

text \<open>
  The loop of \<open>parseTicketIDs\<close> over the characters between the braces, with its two
  variables \<open>ticketIDs\<close> and \<open>currentNumber\<close>. The source ranges over the runes of the
  string; a rune that is a digit or a comma is a single ASCII byte, and every byte of a
  longer or invalid encoding is neither, so ranging over the bytes visits the same digits
  and commas in the same order.
\<close>

fun parseLoop :: "string \<Rightarrow> int list \<Rightarrow> string \<Rightarrow> int list \<times> string" where
  "parseLoop [] ticketIDs currentNumber = (ticketIDs, currentNumber)"
| "parseLoop (c # cs) ticketIDs currentNumber =
     (if isDigit c then parseLoop cs ticketIDs (currentNumber @ [c])
      else if c = CHR '','' then
        (if currentNumber \<noteq> [] then
           (case Atoi currentNumber of
              Some i \<Rightarrow> parseLoop cs (ticketIDs @ [i]) []
            | None \<Rightarrow> parseLoop cs ticketIDs [])
         else parseLoop cs ticketIDs currentNumber)
      else parseLoop cs ticketIDs currentNumber)"

definition parseTicketIDs :: "string \<Rightarrow> int list" where
  "parseTicketIDs ticketIDsStr =
     (if length ticketIDsStr < 3 then []
      else
        let inner = take (length ticketIDsStr - 2) (drop 1 ticketIDsStr)
        in if length inner = 0 then []
           else
             (case parseLoop inner [] [] of
                (ticketIDs, currentNumber) \<Rightarrow>
                  if currentNumber \<noteq> [] then
                    (case Atoi currentNumber of
                       Some i \<Rightarrow> ticketIDs @ [i]
                     | None \<Rightarrow> ticketIDs)
                  else ticketIDs))"

text \<open>
  PostgreSQL's text form of an \<open>INTEGER[]\<close> value, which \<open>Scan\<close> stores into the Go
  string that \<open>parseTicketIDs\<close> reads: the elements in decimal, separated by commas,
  between braces.
\<close>

definition pgArrayText :: "int list \<Rightarrow> string" where
  "pgArrayText ids = ''{'' @ joinInts ids '','' @ ''}''"

text \<open>
  The substring test of \<open>database.go\<close> and of the booking handler (the two copies are
  identical). \<open>findSubstringFrom i\<close> is the loop of \<open>findSubstring\<close> from index \<open>i\<close>;
  the slice \<open>s[i:i+len(substr)]\<close> is in range whenever the loop condition holds.
\<close>

function findSubstringFrom :: "nat \<Rightarrow> string \<Rightarrow> string \<Rightarrow> bool" where
  "findSubstringFrom i s substr =
     (if int i \<le> int (length s) - int (length substr) then
        (if take (length substr) (drop i s) = substr then True
         else findSubstringFrom (i + 1) s substr)
      else False)"
  by pat_completeness auto
termination
  by (relation "measure (\<lambda>(i, s, substr). length s + 1 - i)") auto

declare findSubstringFrom.simps [simp del]

definition findSubstring :: "string \<Rightarrow> string \<Rightarrow> bool" where
  "findSubstring s substr = findSubstringFrom 0 s substr"

definition contains :: "string \<Rightarrow> string \<Rightarrow> bool" where
  "contains s substr \<longleftrightarrow>
     length s \<ge> length substr \<and>
     (s = substr \<or> (length s > length substr \<and> findSubstring s substr))"

section \<open>Data model\<close>

text \<open>
  Instants (\<open>time.Time\<close>, \<open>TIMESTAMP WITH TIME ZONE\<close>) are integers counting
  nanoseconds since the epoch, and durations (\<open>time.Duration\<close>) integers counting
  nanoseconds. The ticket status column holds one of four strings (the check constraint
  of the schema after the migration that adds \<open>'locked'\<close>).
\<close>

type_synonym time = int
type_synonym duration = int

definition Millisecond :: duration where
  "Millisecond = 1000000"

definition Minute :: duration where
  "Minute = 60000000000"

datatype TicketStatus = TicketAvailable | TicketLocked | TicketReserved | TicketSold

datatype BookingStatus = BookingPending | BookingConfirmed | BookingCancelled | BookingExpired

fun ticketStatusText :: "TicketStatus \<Rightarrow> string" where
  "ticketStatusText TicketAvailable = ''available''"
| "ticketStatusText TicketLocked = ''locked''"
| "ticketStatusText TicketReserved = ''reserved''"
| "ticketStatusText TicketSold = ''sold''"

record User =
  us_ID :: int
  us_Name :: string
  us_Email :: string
  us_Phone :: string

text \<open>
  \<open>Price\<close> and \<open>TotalAmount\<close> are \<open>float64\<close> in the source. A finite \<open>float64\<close> is held as
  the real number it denotes, and the price of an event row as the \<open>float64\<close> that reading
  the row yields. The arithmetic of \<open>float64\<close> is not the arithmetic of the
  reals, because every operation rounds its result; the model does not fix that rounding.
  The operations of \<open>float64\<close> that the code uses are the fields of the record
  \<open>Float64Ops\<close>, which the functions that compute with \<open>float64\<close> take as their first
  argument: the conversion \<open>float64(n)\<close> of an integer, and the sum, the product and the
  quotient of two \<open>float64\<close>. The conversion \<open>int(f)\<close> of a \<open>float64\<close> to an integer
  discards the fraction.
\<close>

record Float64Ops =
  f64_of_int :: "int \<Rightarrow> real"
  f64_add :: "real \<Rightarrow> real \<Rightarrow> real"
  f64_mul :: "real \<Rightarrow> real \<Rightarrow> real"
  f64_div :: "real \<Rightarrow> real \<Rightarrow> real"

definition intOfFloat64 :: "real \<Rightarrow> int" where
  "intOfFloat64 f = (if 0 \<le> f then \<lfloor>f\<rfloor> else \<lceil>f\<rceil>)"

text \<open>Go's \<open>/\<close> and \<open>%\<close> on integers truncate the quotient towards zero.\<close>

definition quoInt :: "int \<Rightarrow> int \<Rightarrow> int" where
  "quoInt a b = sgn a * sgn b * (\<bar>a\<bar> div \<bar>b\<bar>)"

definition remInt :: "int \<Rightarrow> int \<Rightarrow> int" where
  "remInt a b = a - quoInt a b * b"

text \<open>
  \<open>Duration.Minutes\<close> of the standard library:
  \<open>min := d / Minute; nsec := d % Minute; return float64(min) + float64(nsec)/(60*1e9)\<close>.
\<close>

definition Minutes :: "Float64Ops \<Rightarrow> duration \<Rightarrow> real" where
  "Minutes fp d =
     (let min = quoInt d Minute;
          nsec = remInt d Minute
      in f64_add fp (f64_of_int fp min) (f64_div fp (f64_of_int fp nsec) (60 * 1000000000)))"

record Event =
  ev_ID :: int
  ev_Name :: string
  ev_Description :: string
  ev_Venue :: string
  ev_StartTime :: time
  ev_EndTime :: time
  ev_TotalTickets :: int
  ev_AvailableTickets :: int
  ev_Price :: real
  ev_CreatedAt :: time
  ev_UpdatedAt :: time

record Ticket =
  tk_ID :: int
  tk_EventID :: int
  tk_SeatNo :: string
  tk_Status :: TicketStatus
  tk_CreatedAt :: time
  tk_UpdatedAt :: time

record Booking =
  bk_ID :: int
  bk_UserID :: int
  bk_EventID :: int
  bk_TicketIDs :: "int list"
  bk_Quantity :: int
  bk_TotalAmount :: real
  bk_Status :: BookingStatus
  bk_BookingRef :: string
  bk_CreatedAt :: time
  bk_UpdatedAt :: time
  bk_ExpiresAt :: time

record BookingRequest =
  rq_UserID :: int
  rq_EventID :: int
  rq_Quantity :: int

text \<open>
  The durable store: the four tables as lists of rows, and the sequence behind
  \<open>bookings.id\<close>. \<open>ORDER BY seat_no\<close> is the bytewise lexicographic order on strings.
\<close>

record Database =
  users :: "User list"
  events :: "Event list"
  tickets :: "Ticket list"
  bookings :: "Booking list"
  bookings_id_seq :: int

record AppConfig =
  SeatLockDuration :: duration
  BookingExpiration :: duration
  CleanupInterval :: duration

section \<open>Errors\<close>

text \<open>
  One constructor for each error the modelled code creates, with the wrapped cause where
  the source wraps one (\<open>%w\<close>). \<open>PqError\<close> is an error reported by the database driver
  and \<open>OtherError\<close> any other error value, both with their message. \<open>Error\<close> is the text
  \<open>err.Error()\<close> returns, which the retry loop and the handlers inspect.
\<close>

datatype error =
    ErrNoRows
  | PqError string
  | OtherError string
  | ErrEventNotFound
  | ErrEventStarted
  | ErrSelectTickets error
  | ErrInsufficientLocked int int
  | ErrUpdateEvent error
  | ErrCreateBooking error
  | ErrBookingNotFound error
  | ErrBookingNotPending
  | ErrBookingExpired
  | ErrTicketsNotConfirmed
  | ErrBookingAlreadyCancelled
  | ErrSeatNotFound error
  | ErrSeatNotAvailable string
  | ErrSeatJustTaken
  | ErrRetriesExhausted int "error option"

fun Error :: "error \<Rightarrow> string" where
  "Error ErrNoRows = ''sql: no rows in result set''"
| "Error (PqError msg) = msg"
| "Error (OtherError msg) = msg"
| "Error ErrEventNotFound = ''event not found''"
| "Error ErrEventStarted = ''event has already started''"
| "Error (ErrSelectTickets e) = ''failed to select tickets: '' @ Error e"
| "Error (ErrInsufficientLocked found need) =
     ''insufficient locked seats for booking. Found '' @ formatInt found
       @ '' locked seats, need '' @ formatInt need @ ''. Please select seats first''"
| "Error (ErrUpdateEvent e) = ''failed to update event: '' @ Error e"
| "Error (ErrCreateBooking e) = ''failed to create booking: '' @ Error e"
| "Error (ErrBookingNotFound e) = ''booking not found: '' @ Error e"
| "Error ErrBookingNotPending = ''booking is not in pending status''"
| "Error ErrBookingExpired = ''booking has expired''"
| "Error ErrTicketsNotConfirmed = ''some tickets could not be confirmed''"
| "Error ErrBookingAlreadyCancelled = ''booking is already cancelled''"
| "Error (ErrSeatNotFound e) = ''seat not found: '' @ Error e"
| "Error (ErrSeatNotAvailable status) =
     ''seat is no longer available (current status: '' @ status @ '')''"
| "Error ErrSeatJustTaken = ''seat was just taken by another user''"
| "Error (ErrRetriesExhausted maxRetries cause) =
     ''operation failed after '' @ formatInt maxRetries @ '' retries: ''
       @ (case cause of None \<Rightarrow> ''%!w(<nil>)'' | Some e \<Rightarrow> Error e)"

section \<open>Transactional gateway\<close>

text \<open>
  \<open>WithTransaction\<close>: the work runs on the store and its changes are kept iff it returns
  no error; on an error the rollback leaves the store as it was. The work of the source
  hands its result to the caller through a captured variable; here it returns it.
  Failures to begin or to commit a transaction are outside the model.
\<close>

definition WithTransaction ::
  "(Database \<Rightarrow> error + ('a \<times> Database)) \<Rightarrow> Database \<Rightarrow> (error + 'a) \<times> Database" where
  "WithTransaction fn db =
     (case fn db of
        Inl err \<Rightarrow> (Inl err, db)
      | Inr (r, db') \<Rightarrow> (Inr r, db'))"

definition isRetryableError :: "error \<Rightarrow> bool" where
  "isRetryableError err \<longleftrightarrow>
     (let errStr = Error err
      in contains errStr ''40001'' \<or> contains errStr ''40P01'' \<or> contains errStr ''deadlock''
         \<or> contains errStr ''serialization failure'' \<or> contains errStr ''connection''
         \<or> contains errStr ''timeout'')"

text \<open>
  The loop of \<open>WithRetry\<close> from iteration \<open>i\<close>, with the last error in \<open>err\<close>. The
  operation \<open>fn\<close> and the wait between attempts act on a world \<open>'w\<close> that is threaded
  through the calls. \<open>sleep\<close> is the \<open>select\<close> on \<open>ctx.Done()\<close> and
  \<open>time.After(retryDelay)\<close>: it returns \<open>True\<close> when the context is done first, and then
  \<open>ctxErr\<close> stands for \<open>ctx.Err()\<close>.
\<close>

function WithRetryLoop ::
  "('w \<Rightarrow> error option \<times> 'w) \<Rightarrow> (duration \<Rightarrow> 'w \<Rightarrow> bool \<times> 'w) \<Rightarrow> error \<Rightarrow>
   int \<Rightarrow> duration \<Rightarrow> int \<Rightarrow> error option \<Rightarrow> 'w \<Rightarrow> error option \<times> 'w" where
  "WithRetryLoop fn sleep ctxErr maxRetries retryDelay i err w =
     (if i \<le> maxRetries then
        (case fn w of
           (None, w1) \<Rightarrow> (None, w1)
         | (Some e, w1) \<Rightarrow>
             if \<not> isRetryableError e then (Some e, w1)
             else if i < maxRetries then
               (case sleep retryDelay w1 of
                  (True, w2) \<Rightarrow> (Some ctxErr, w2)
                | (False, w2) \<Rightarrow>
                    WithRetryLoop fn sleep ctxErr maxRetries retryDelay (i + 1) (Some e) w2)
             else WithRetryLoop fn sleep ctxErr maxRetries retryDelay (i + 1) (Some e) w1)
      else (Some (ErrRetriesExhausted maxRetries err), w))"
  by pat_completeness auto
termination
  by (relation "measure (\<lambda>(fn, sleep, ctxErr, maxRetries, retryDelay, i, err, w).
        nat (maxRetries + 1 - i))") auto

declare WithRetryLoop.simps [simp del]

definition WithRetry ::
  "('w \<Rightarrow> error option \<times> 'w) \<Rightarrow> (duration \<Rightarrow> 'w \<Rightarrow> bool \<times> 'w) \<Rightarrow> error \<Rightarrow>
   int \<Rightarrow> duration \<Rightarrow> 'w \<Rightarrow> error option \<times> 'w" where
  "WithRetry fn sleep ctxErr maxRetries retryDelay w =
     WithRetryLoop fn sleep ctxErr maxRetries retryDelay 0 None w"

text \<open>
  A record of what a run of \<open>WithRetry\<close> did: the operation and the wait are wrapped so
  that each call appends an entry to a trace carried beside the world.
\<close>

datatype retry_event = Invoked "error option" | Slept duration bool

definition loggedFn ::
  "('w \<Rightarrow> error option \<times> 'w) \<Rightarrow> retry_event list \<times> 'w \<Rightarrow> error option \<times> retry_event list \<times> 'w" where
  "loggedFn fn = (\<lambda>(trace, w). case fn w of (r, w') \<Rightarrow> (r, trace @ [Invoked r], w'))"

definition loggedSleep ::
  "(duration \<Rightarrow> 'w \<Rightarrow> bool \<times> 'w) \<Rightarrow> duration \<Rightarrow> retry_event list \<times> 'w
     \<Rightarrow> bool \<times> retry_event list \<times> 'w" where
  "loggedSleep sleep = (\<lambda>d (trace, w). case sleep d w of (c, w') \<Rightarrow> (c, trace @ [Slept d c], w'))"

fun isInvoked :: "retry_event \<Rightarrow> bool" where
  "isInvoked (Invoked r) = True"
| "isInvoked (Slept d c) = False"

definition invocations :: "retry_event list \<Rightarrow> nat" where
  "invocations trace = length (filter isInvoked trace)"

section \<open>Seat registry\<close>

text \<open>
  Every statement that changes tickets has the form
  \<open>UPDATE tickets SET status = s, updated_at = NOW() WHERE cond\<close>: the rows that satisfy
  the condition get the new status and time stamp, the others stay as they are, and the
  number of rows that satisfied it is the statement's \<open>RowsAffected\<close>. \<open>dbNow\<close> is the
  store's \<open>NOW()\<close>.
\<close>

definition updateTickets :: "(Ticket \<Rightarrow> bool) \<Rightarrow> TicketStatus \<Rightarrow> time \<Rightarrow> Database \<Rightarrow> Database" where
  "updateTickets cond status dbNow db =
     db\<lparr>tickets :=
          map (\<lambda>t. if cond t then t\<lparr>tk_Status := status, tk_UpdatedAt := dbNow\<rparr> else t)
            (tickets db)\<rparr>"

definition rowsAffected :: "(Ticket \<Rightarrow> bool) \<Rightarrow> Database \<Rightarrow> nat" where
  "rowsAffected cond db = length (filter cond (tickets db))"

text \<open>
  \<open>LockSeat\<close>: the row is read with \<open>FOR UPDATE\<close>, must be \<open>available\<close>, and is set to
  \<open>locked\<close>.
\<close>

definition seatMatches :: "int \<Rightarrow> string \<Rightarrow> Ticket \<Rightarrow> bool" where
  "seatMatches eventID seatNo t \<longleftrightarrow> tk_EventID t = eventID \<and> tk_SeatNo t = seatNo"

definition lockSeatTx :: "time \<Rightarrow> int \<Rightarrow> string \<Rightarrow> Database \<Rightarrow> error + (unit \<times> Database)" where
  "lockSeatTx dbNow eventID seatNo db =
     (case find (seatMatches eventID seatNo) (tickets db) of
        None \<Rightarrow> Inl (ErrSeatNotFound ErrNoRows)
      | Some t \<Rightarrow>
          let currentStatus = ticketStatusText (tk_Status t)
          in if currentStatus \<noteq> ''available'' then Inl (ErrSeatNotAvailable currentStatus)
             else
               let db' = updateTickets (seatMatches eventID seatNo) TicketLocked dbNow db
               in if rowsAffected (seatMatches eventID seatNo) db = 0 then Inl ErrSeatJustTaken
                  else Inr ((), db'))"

definition LockSeat :: "time \<Rightarrow> int \<Rightarrow> string \<Rightarrow> Database \<Rightarrow> (error + unit) \<times> Database" where
  "LockSeat dbNow eventID seatNo db = WithTransaction (lockSeatTx dbNow eventID seatNo) db"

text \<open>\<open>UnlockSeat\<close>: one statement outside any transaction; it always returns \<open>nil\<close>.\<close>

definition UnlockSeat :: "time \<Rightarrow> int \<Rightarrow> string \<Rightarrow> Database \<Rightarrow> error option \<times> Database" where
  "UnlockSeat dbNow eventID seatNo db =
     (None,
      updateTickets (\<lambda>t. seatMatches eventID seatNo t \<and> tk_Status t = TicketLocked)
        TicketAvailable dbNow db)"

text \<open>
  \<open>CleanupExpiredLocks\<close>. \<open>lockDurationMinutes\<close> is \<open>int(r.config.App.SeatLockDuration.Minutes())\<close>:
  the hold lifetime as a floating-point number of minutes, with its fraction discarded.
  The statement compares \<open>updated_at\<close> with \<open>NOW() - INTERVAL 'k minutes'\<close> for that
  integer \<open>k\<close>. The function returns only an error; the number of rows it changed is
  written to the log.
\<close>

definition lockDurationMinutes :: "Float64Ops \<Rightarrow> AppConfig \<Rightarrow> int" where
  "lockDurationMinutes fp cfg = intOfFloat64 (Minutes fp (SeatLockDuration cfg))"

definition lockExpired :: "Float64Ops \<Rightarrow> AppConfig \<Rightarrow> time \<Rightarrow> Ticket \<Rightarrow> bool" where
  "lockExpired fp cfg dbNow t \<longleftrightarrow>
     tk_Status t = TicketLocked \<and>
     tk_UpdatedAt t < dbNow - lockDurationMinutes fp cfg * Minute"

definition CleanupExpiredLocks :: "Float64Ops \<Rightarrow> AppConfig \<Rightarrow> time \<Rightarrow> Database \<Rightarrow> error option \<times> Database" where
  "CleanupExpiredLocks fp cfg dbNow db =
     (None, updateTickets (lockExpired fp cfg dbNow) TicketAvailable dbNow db)"

section \<open>Booking engine\<close>

text \<open>
  The statements of the booking transactions, with the constraints of the schema that
  can reject them: the checks \<open>available_tickets >= 0\<close>, \<open>quantity > 0\<close> and
  \<open>total_amount >= 0\<close>, the primary key and the unique \<open>booking_ref\<close> of \<open>bookings\<close>, and
  its foreign key to \<open>users\<close>. The ranges of the column types are not modelled, nor is
  the rounding of \<open>total_amount\<close> to the two decimals of its column: the row keeps the
  \<open>float64\<close> that the statement was given.
\<close>

definition availableTicketsCheck :: error where
  \<open>availableTicketsCheck =
     PqError ''pq: new row for relation "events" violates check constraint "events_available_tickets_check"''\<close>

definition updateAvailableTickets :: "time \<Rightarrow> int \<Rightarrow> int \<Rightarrow> Database \<Rightarrow> error + Database" where
  "updateAvailableTickets dbNow eventID delta db =
     (if list_ex (\<lambda>e. ev_ID e = eventID \<and> ev_AvailableTickets e + delta < 0) (events db)
      then Inl availableTicketsCheck
      else Inr (db\<lparr>events :=
                  map (\<lambda>e. if ev_ID e = eventID
                            then e\<lparr>ev_AvailableTickets := ev_AvailableTickets e + delta,
                                   ev_UpdatedAt := dbNow\<rparr>
                            else e) (events db)\<rparr>))"

definition bookingInsertViolation :: "Booking \<Rightarrow> Database \<Rightarrow> error option" where
  \<open>bookingInsertViolation b db =
     (if bk_Quantity b \<le> 0 then
        Some (PqError ''pq: new row for relation "bookings" violates check constraint "bookings_quantity_check"'')
      else if bk_TotalAmount b < 0 then
        Some (PqError ''pq: new row for relation "bookings" violates check constraint "bookings_total_amount_check"'')
      else if \<not> list_ex (\<lambda>u. us_ID u = bk_UserID b) (users db) then
        Some (PqError ''pq: insert or update on table "bookings" violates foreign key constraint "bookings_user_id_fkey"'')
      else if list_ex (\<lambda>b'. bk_ID b' = bk_ID b) (bookings db) then
        Some (PqError ''pq: duplicate key value violates unique constraint "bookings_pkey"'')
      else if list_ex (\<lambda>b'. bk_BookingRef b' = bk_BookingRef b) (bookings db) then
        Some (PqError ''pq: duplicate key value violates unique constraint "bookings_booking_ref_key"'')
      else None)\<close>

definition insertBooking :: "Booking \<Rightarrow> Database \<Rightarrow> error + Database" where
  "insertBooking b db =
     (case bookingInsertViolation b db of
        Some err \<Rightarrow> Inl err
      | None \<Rightarrow> Inr (db\<lparr>bookings := bookings db @ [b], bookings_id_seq := bk_ID b\<rparr>))"

definition generateBookingRef :: "time \<Rightarrow> string" where
  "generateBookingRef now = ''BK'' @ formatInt now"

text \<open>
  The clock readings of one booking attempt: \<open>time.Now()\<close> at the timing check, in
  \<open>generateBookingRef\<close> and at the computation of \<open>expiresAt\<close>, and the store's \<open>NOW()\<close>.
\<close>

record BookClock =
  ck_Validate :: time
  ck_Ref :: time
  ck_Expires :: time
  ck_DB :: time

definition lockedTickets :: "int \<Rightarrow> Database \<Rightarrow> Ticket list" where
  "lockedTickets eventID db =
     sort_key tk_SeatNo
       (filter (\<lambda>t. tk_EventID t = eventID \<and> tk_Status t = TicketLocked) (tickets db))"

text \<open>
  Step 7 of \<open>bookTicketsWithLock\<close>: the booking that is inserted and returned. Its
  identifier comes from the sequence, and \<open>created_at\<close> and \<open>updated_at\<close> are the store's
  \<open>NOW()\<close>. The total amount is \<open>event.Price * float64(request.Quantity)\<close>, a product of
  two \<open>float64\<close>.
\<close>

definition pendingBooking ::
  "Float64Ops \<Rightarrow> AppConfig \<Rightarrow> BookClock \<Rightarrow> BookingRequest \<Rightarrow> Event \<Rightarrow> int list \<Rightarrow> int \<Rightarrow> Booking" where
  "pendingBooking fp cfg clk request event ticketIDs bookingID =
     (let totalAmount = f64_mul fp (ev_Price event) (f64_of_int fp (rq_Quantity request));
          bookingRef = generateBookingRef (ck_Ref clk);
          expiresAt = ck_Expires clk + BookingExpiration cfg
      in \<lparr>bk_ID = bookingID,
          bk_UserID = rq_UserID request,
          bk_EventID = rq_EventID request,
          bk_TicketIDs = ticketIDs,
          bk_Quantity = rq_Quantity request,
          bk_TotalAmount = totalAmount,
          bk_Status = BookingPending,
          bk_BookingRef = bookingRef,
          bk_CreatedAt = ck_DB clk,
          bk_UpdatedAt = ck_DB clk,
          bk_ExpiresAt = expiresAt\<rparr>)"

definition bookTicketsWithLock ::
  "Float64Ops \<Rightarrow> AppConfig \<Rightarrow> BookClock \<Rightarrow> BookingRequest \<Rightarrow> Database \<Rightarrow> error + (Booking \<times> Database)" where
  "bookTicketsWithLock fp cfg clk request db =
     (case find (\<lambda>e. ev_ID e = rq_EventID request) (events db) of
        None \<Rightarrow> Inl ErrEventNotFound
      | Some event \<Rightarrow>
          if ck_Validate clk > ev_StartTime event then Inl ErrEventStarted
          else if rq_Quantity request < 0 then
            Inl (ErrSelectTickets (PqError ''pq: LIMIT must not be negative''))
          else
            let rows = take (nat (rq_Quantity request)) (lockedTickets (rq_EventID request) db);
                ticketIDs = map tk_ID rows
            in if int (length ticketIDs) < rq_Quantity request then
                 Inl (ErrInsufficientLocked (int (length ticketIDs)) (rq_Quantity request))
               else
                 let db1 = updateTickets (\<lambda>t. tk_ID t \<in> set ticketIDs) TicketReserved
                             (ck_DB clk) db
                 in (case updateAvailableTickets (ck_DB clk) (rq_EventID request)
                           (- rq_Quantity request) db1 of
                      Inl err \<Rightarrow> Inl (ErrUpdateEvent err)
                    | Inr db2 \<Rightarrow>
                        let booking = pendingBooking fp cfg clk request event ticketIDs
                                        (bookings_id_seq db2 + 1)
                        in (case insertBooking booking db2 of
                              Inl err \<Rightarrow> Inl (ErrCreateBooking err)
                            | Inr db3 \<Rightarrow> Inr (booking, db3))))"

text \<open>
  \<open>BookTickets\<close> runs the transaction under \<open>WithRetry\<close> with three retries and a delay
  of 100 ms. The world of the retry loop is the number of attempts made so far, the
  store and the captured variable \<open>booking\<close>. The environment gives the clock readings of
  each attempt and says, for each wait, whether the context is done first.
\<close>

record BookEnv =
  env_Clock :: "nat \<Rightarrow> BookClock"
  env_CtxDone :: "nat \<Rightarrow> bool"
  env_CtxErr :: error

type_synonym bookWorld = "nat \<times> Database \<times> Booking option"

definition bookAttempt ::
  "Float64Ops \<Rightarrow> AppConfig \<Rightarrow> BookEnv \<Rightarrow> BookingRequest \<Rightarrow> bookWorld \<Rightarrow> error option \<times> bookWorld" where
  "bookAttempt fp cfg env request = (\<lambda>(n, db, booking).
     case WithTransaction (bookTicketsWithLock fp cfg (env_Clock env n) request) db of
       (Inl err, db') \<Rightarrow> (Some err, (n + 1, db', None))
     | (Inr b, db') \<Rightarrow> (None, (n + 1, db', Some b)))"

definition bookSleep :: "BookEnv \<Rightarrow> duration \<Rightarrow> bookWorld \<Rightarrow> bool \<times> bookWorld" where
  "bookSleep env d = (\<lambda>(n, db, booking). (env_CtxDone env n, (n, db, booking)))"

definition BookTickets ::
  "Float64Ops \<Rightarrow> AppConfig \<Rightarrow> BookEnv \<Rightarrow> BookingRequest \<Rightarrow> Database \<Rightarrow>
   (Booking option \<times> error option) \<times> Database" where
  "BookTickets fp cfg env request db =
     (case WithRetry (bookAttempt fp cfg env request) (bookSleep env) (env_CtxErr env)
             3 (100 * Millisecond) (0, db, None) of
        (err, (n, db', booking)) \<Rightarrow> ((booking, err), db'))"

text \<open>\<open>UPDATE bookings SET status = s, updated_at = NOW() WHERE id = bookingID\<close>.\<close>

definition updateBookingStatus :: "int \<Rightarrow> BookingStatus \<Rightarrow> time \<Rightarrow> Database \<Rightarrow> Database" where
  "updateBookingStatus bookingID status dbNow db =
     db\<lparr>bookings :=
          map (\<lambda>b. if bk_ID b = bookingID
                    then b\<lparr>bk_Status := status, bk_UpdatedAt := dbNow\<rparr>
                    else b) (bookings db)\<rparr>"

text \<open>\<open>ConfirmBooking\<close>; \<open>now\<close> is \<open>time.Now()\<close> and \<open>dbNow\<close> the store's \<open>NOW()\<close>.\<close>

definition confirmBookingTx :: "time \<Rightarrow> time \<Rightarrow> int \<Rightarrow> Database \<Rightarrow> error + (unit \<times> Database)" where
  "confirmBookingTx now dbNow bookingID db =
     (case find (\<lambda>b. bk_ID b = bookingID) (bookings db) of
        None \<Rightarrow> Inl (ErrBookingNotFound ErrNoRows)
      | Some booking \<Rightarrow>
          let ticketIDsStr = pgArrayText (bk_TicketIDs booking)
          in if bk_Status booking \<noteq> BookingPending then Inl ErrBookingNotPending
             else if now > bk_ExpiresAt booking then Inl ErrBookingExpired
             else
               let ticketIDs = parseTicketIDs ticketIDsStr;
                   cond = (\<lambda>t. tk_ID t \<in> set ticketIDs \<and> tk_Status t = TicketReserved);
                   db1 = updateTickets cond TicketSold dbNow db
               in if int (rowsAffected cond db) \<noteq> int (length ticketIDs)
                  then Inl ErrTicketsNotConfirmed
                  else Inr ((), updateBookingStatus bookingID BookingConfirmed dbNow db1))"

definition ConfirmBooking :: "time \<Rightarrow> time \<Rightarrow> int \<Rightarrow> Database \<Rightarrow> (error + unit) \<times> Database" where
  "ConfirmBooking now dbNow bookingID db = WithTransaction (confirmBookingTx now dbNow bookingID) db"

definition cancelBookingTx :: "time \<Rightarrow> int \<Rightarrow> Database \<Rightarrow> error + (unit \<times> Database)" where
  "cancelBookingTx dbNow bookingID db =
     (case find (\<lambda>b. bk_ID b = bookingID) (bookings db) of
        None \<Rightarrow> Inl (ErrBookingNotFound ErrNoRows)
      | Some booking \<Rightarrow>
          let ticketIDsStr = pgArrayText (bk_TicketIDs booking)
          in if bk_Status booking = BookingCancelled then Inl ErrBookingAlreadyCancelled
             else
               let ticketIDs = parseTicketIDs ticketIDsStr;
                   db1 = updateTickets (\<lambda>t. tk_ID t \<in> set ticketIDs) TicketAvailable dbNow db
               in (case updateAvailableTickets dbNow (bk_EventID booking) (bk_Quantity booking) db1 of
                     Inl err \<Rightarrow> Inl (ErrUpdateEvent err)
                   | Inr db2 \<Rightarrow>
                       Inr ((), updateBookingStatus bookingID BookingCancelled dbNow db2)))"

definition CancelBooking :: "time \<Rightarrow> int \<Rightarrow> Database \<Rightarrow> (error + unit) \<times> Database" where
  "CancelBooking dbNow bookingID db = WithTransaction (cancelBookingTx dbNow bookingID) db"

section \<open>HTTP surface of booking\<close>

definition GetEvent :: "int \<Rightarrow> Database \<Rightarrow> error + Event" where
  "GetEvent eventID db =
     (case find (\<lambda>e. ev_ID e = eventID) (events db) of
        None \<Rightarrow> Inl ErrEventNotFound
      | Some e \<Rightarrow> Inr e)"

text \<open>
  The binding tags of \<open>BookingRequest\<close>: each field is required (not the zero value) and
  the quantity lies between 1 and 10.
\<close>

definition bindingValid :: "BookingRequest \<Rightarrow> bool" where
  "bindingValid request \<longleftrightarrow>
     rq_UserID request \<noteq> 0 \<and> rq_EventID request \<noteq> 0 \<and> rq_Quantity request \<noteq> 0 \<and>
     1 \<le> rq_Quantity request \<and> rq_Quantity request \<le> 10"

definition StatusCreated :: nat where "StatusCreated = 201"
definition StatusBadRequest :: nat where "StatusBadRequest = 400"
definition StatusNotFound :: nat where "StatusNotFound = 404"
definition StatusInternalServerError :: nat where "StatusInternalServerError = 500"

definition bookingErrorStatus :: "error \<Rightarrow> nat" where
  "bookingErrorStatus err =
     (if contains (Error err) ''insufficient tickets'' \<or> contains (Error err) ''not found''
      then StatusBadRequest
      else if contains (Error err) ''already started'' then StatusBadRequest
      else StatusInternalServerError)"

text \<open>The handler of \<open>POST /api/v1/bookings\<close>, from the decoded request body to the status code.\<close>

definition BookTicketsHandler ::
  "Float64Ops \<Rightarrow> AppConfig \<Rightarrow> BookEnv \<Rightarrow> BookingRequest \<Rightarrow> Database \<Rightarrow> nat \<times> Database" where
  "BookTicketsHandler fp cfg env request db =
     (if \<not> bindingValid request then (StatusBadRequest, db)
      else (case GetEvent (rq_EventID request) db of
              Inl err \<Rightarrow> (StatusNotFound, db)
            | Inr event \<Rightarrow>
                (case BookTickets fp cfg env request db of
                   ((booking, Some err), db') \<Rightarrow> (bookingErrorStatus err, db')
                 | ((booking, None), db') \<Rightarrow> (StatusCreated, db'))))"

section \<open>Consistency of the store\<close>

text \<open>
  The master equality as the specification words it: for every event, the counter
  \<open>available_tickets\<close> is the number of the event's tickets whose status is \<open>available\<close>.
\<close>

definition specAvailableInvariant :: "Database \<Rightarrow> bool" where
  "specAvailableInvariant db \<longleftrightarrow>
     (\<forall>e \<in> set (events db).
        ev_AvailableTickets e
          = int (length (filter (\<lambda>t. tk_EventID t = ev_ID e \<and> tk_Status t = TicketAvailable)
                           (tickets db))))"

text \<open>
  The equality the code maintains: a hold does not touch the counter, so the counter is
  the number of the event's tickets that are not yet part of a booking, that is,
  \<open>available\<close> or \<open>locked\<close>.
\<close>

definition isOpen :: "TicketStatus \<Rightarrow> bool" where
  "isOpen status \<longleftrightarrow> status = TicketAvailable \<or> status = TicketLocked"

definition openTickets :: "int \<Rightarrow> Database \<Rightarrow> nat" where
  "openTickets eventID db =
     length (filter (\<lambda>t. tk_EventID t = eventID \<and> isOpen (tk_Status t)) (tickets db))"

definition counterInvariant :: "Database \<Rightarrow> bool" where
  "counterInvariant db \<longleftrightarrow>
     (\<forall>e \<in> set (events db). ev_AvailableTickets e = int (openTickets (ev_ID e) db))"

text \<open>
  The key constraints of the schema that the operations rely on: the primary keys of
  \<open>tickets\<close> and \<open>bookings\<close>, the unique \<open>(event_id, seat_no)\<close> of \<open>tickets\<close>, and ticket
  ids that are non-negative and fit Go's \<open>int\<close> (they come from a \<open>SERIAL\<close> column).
\<close>

definition schemaConstraints :: "Database \<Rightarrow> bool" where
  "schemaConstraints db \<longleftrightarrow>
     distinct (map tk_ID (tickets db))
     \<and> distinct (map (\<lambda>t. (tk_EventID t, tk_SeatNo t)) (tickets db))
     \<and> distinct (map bk_ID (bookings db))
     \<and> (\<forall>t \<in> set (tickets db). 0 \<le> tk_ID t \<and> is_go_int (tk_ID t))"

text \<open>
  Bookings and their tickets: every booking that is not cancelled lists distinct tickets
  of its own event, as many as its quantity, each \<open>reserved\<close> or \<open>sold\<close>; and no ticket is
  listed by two bookings that are not cancelled.
\<close>

definition bookingTicketsOK :: "Database \<Rightarrow> Booking \<Rightarrow> bool" where
  "bookingTicketsOK db b \<longleftrightarrow>
     distinct (bk_TicketIDs b)
     \<and> bk_Quantity b = int (length (bk_TicketIDs b))
     \<and> (\<forall>i \<in> set (bk_TicketIDs b).
           \<exists>t \<in> set (tickets db). tk_ID t = i \<and> tk_EventID t = bk_EventID b
                                    \<and> \<not> isOpen (tk_Status t))"

definition bookingsConsistent :: "Database \<Rightarrow> bool" where
  "bookingsConsistent db \<longleftrightarrow>
     (\<forall>b \<in> set (bookings db). bk_Status b \<noteq> BookingCancelled \<longrightarrow> bookingTicketsOK db b)
     \<and> (\<forall>b \<in> set (bookings db). \<forall>b' \<in> set (bookings db).
           bk_ID b \<noteq> bk_ID b' \<and> bk_Status b \<noteq> BookingCancelled
             \<and> bk_Status b' \<noteq> BookingCancelled
           \<longrightarrow> set (bk_TicketIDs b) \<inter> set (bk_TicketIDs b') = {})"

definition consistent :: "Database \<Rightarrow> bool" where
  "consistent db \<longleftrightarrow> schemaConstraints db \<and> counterInvariant db \<and> bookingsConsistent db"

section \<open>Sample data\<close>

text \<open>A small store used to exercise the theorems: one event with three seats and one user.\<close>

definition sampleTicket :: "int \<Rightarrow> string \<Rightarrow> TicketStatus \<Rightarrow> time \<Rightarrow> Ticket" where
  "sampleTicket i seatNo status updatedAt =
     \<lparr>tk_ID = i, tk_EventID = 1, tk_SeatNo = seatNo, tk_Status = status,
      tk_CreatedAt = 0, tk_UpdatedAt = updatedAt\<rparr>"

definition sampleEvent :: Event where
  "sampleEvent =
     \<lparr>ev_ID = 1, ev_Name = ''Rock Concert'', ev_Description = ''Live'', ev_Venue = ''Music Hall'',
      ev_StartTime = 1000 * Minute, ev_EndTime = 1240 * Minute, ev_TotalTickets = 3,
      ev_AvailableTickets = 3, ev_Price = 100, ev_CreatedAt = 0, ev_UpdatedAt = 0\<rparr>"

definition sampleUser :: User where
  "sampleUser = \<lparr>us_ID = 1, us_Name = ''John Doe'', us_Email = ''john.doe@example.com'',
                  us_Phone = ''+1-555-0101''\<rparr>"

definition sampleDb :: Database where
  "sampleDb =
     \<lparr>users = [sampleUser], events = [sampleEvent],
      tickets = [sampleTicket 1 ''S001'' TicketAvailable 0,
                 sampleTicket 2 ''S002'' TicketAvailable 0,
                 sampleTicket 3 ''S003'' TicketAvailable 0],
      bookings = [], bookings_id_seq = 0\<rparr>"

definition heldDb :: Database where
  "heldDb = sampleDb\<lparr>tickets := [sampleTicket 1 ''S001'' TicketAvailable 0,
                                  sampleTicket 2 ''S002'' TicketLocked (10 * Minute),
                                  sampleTicket 3 ''S003'' TicketAvailable 0]\<rparr>"

definition Second :: duration where
  "Second = 1000000000"

text \<open>
  The arithmetic of \<open>float64\<close> on operands whose exact result is again a \<open>float64\<close>, as
  it is for every operation on the sample data (integers of a few digits, and one half):
  there IEEE 754 returns the exact result.
\<close>

definition exactFloat64 :: Float64Ops where
  "exactFloat64 =
     \<lparr>f64_of_int = real_of_int, f64_add = (\<lambda>x y. x + y), f64_mul = (\<lambda>x y. x * y),
      f64_div = (\<lambda>x y. x / y)\<rparr>"

text \<open>
  A store in which three seats of the event are held, stored out of the order of their
  seat numbers.
\<close>

definition queueDb :: Database where
  "queueDb = sampleDb\<lparr>tickets := [sampleTicket 1 ''S003'' TicketLocked (10 * Minute),
                                   sampleTicket 2 ''S001'' TicketLocked (11 * Minute),
                                   sampleTicket 3 ''S002'' TicketLocked (12 * Minute)]\<rparr>"

definition sampleConfig :: AppConfig where
  "sampleConfig =
     \<lparr>SeatLockDuration = 3 * Minute, BookingExpiration = 15 * Minute, CleanupInterval = Minute\<rparr>"

definition shortLockConfig :: AppConfig where
  "shortLockConfig = sampleConfig\<lparr>SeatLockDuration := 90 * Second\<rparr>"

definition sampleClock :: "time \<Rightarrow> BookClock" where
  "sampleClock now = \<lparr>ck_Validate = now, ck_Ref = now + 1, ck_Expires = now + 2, ck_DB = now\<rparr>"

definition sampleEnv :: "time \<Rightarrow> BookEnv" where
  "sampleEnv now =
     \<lparr>env_Clock = (\<lambda>n. sampleClock now), env_CtxDone = (\<lambda>n. False),
      env_CtxErr = OtherError ''context canceled''\<rparr>"

definition sampleRequest :: "int \<Rightarrow> BookingRequest" where
  "sampleRequest quantity = \<lparr>rq_UserID = 1, rq_EventID = 1, rq_Quantity = quantity\<rparr>"

definition sampleBooking :: "time \<Rightarrow> Booking" where
  "sampleBooking now =
     pendingBooking exactFloat64 sampleConfig (sampleClock now) (sampleRequest 1) sampleEvent [2] 1"

definition queueBooking :: "time \<Rightarrow> Booking" where
  "queueBooking now =
     pendingBooking exactFloat64 sampleConfig (sampleClock now) (sampleRequest 2) sampleEvent [2, 3] 1"

definition reservedDb :: "time \<Rightarrow> Database" where
  "reservedDb now =
     \<lparr>users = [sampleUser],
      events = [sampleEvent\<lparr>ev_AvailableTickets := 2, ev_UpdatedAt := now\<rparr>],
      tickets = [sampleTicket 1 ''S001'' TicketAvailable 0,
                 sampleTicket 2 ''S002'' TicketReserved now,
                 sampleTicket 3 ''S003'' TicketAvailable 0],
      bookings = [sampleBooking now], bookings_id_seq = 1\<rparr>"

text \<open>
  The runs of the retry loop as a relation: \<open>retryRun fn sleep ctxErr maxRetries retryDelay
  i err w trace res w'\<close> holds when the loop, entered at iteration \<open>i\<close> with last error
  \<open>err\<close> in world \<open>w\<close>, makes the calls recorded in \<open>trace\<close> and returns \<open>res\<close> in world
  \<open>w'\<close>. One rule for each way through the loop body.
\<close>

inductive retryRun ::
  "('w \<Rightarrow> error option \<times> 'w) \<Rightarrow> (duration \<Rightarrow> 'w \<Rightarrow> bool \<times> 'w) \<Rightarrow> error \<Rightarrow> int \<Rightarrow> duration \<Rightarrow>
   int \<Rightarrow> error option \<Rightarrow> 'w \<Rightarrow> retry_event list \<Rightarrow> error option \<Rightarrow> 'w \<Rightarrow> bool"
  for fn sleep ctxErr maxRetries retryDelay where
  exhausted: "\<not> i \<le> maxRetries \<Longrightarrow>
      retryRun fn sleep ctxErr maxRetries retryDelay i err w []
        (Some (ErrRetriesExhausted maxRetries err)) w"
| succeeded: "i \<le> maxRetries \<Longrightarrow> fn w = (None, w1) \<Longrightarrow>
      retryRun fn sleep ctxErr maxRetries retryDelay i err w [Invoked None] None w1"
| fatal: "i \<le> maxRetries \<Longrightarrow> fn w = (Some e, w1) \<Longrightarrow> \<not> isRetryableError e \<Longrightarrow>
      retryRun fn sleep ctxErr maxRetries retryDelay i err w [Invoked (Some e)] (Some e) w1"
| cancelled: "i < maxRetries \<Longrightarrow> fn w = (Some e, w1) \<Longrightarrow> isRetryableError e \<Longrightarrow>
      sleep retryDelay w1 = (True, w2) \<Longrightarrow>
      retryRun fn sleep ctxErr maxRetries retryDelay i err w
        [Invoked (Some e), Slept retryDelay True] (Some ctxErr) w2"
| retried: "i < maxRetries \<Longrightarrow> fn w = (Some e, w1) \<Longrightarrow> isRetryableError e \<Longrightarrow>
      sleep retryDelay w1 = (False, w2) \<Longrightarrow>
      retryRun fn sleep ctxErr maxRetries retryDelay (i + 1) (Some e) w2 trace res w' \<Longrightarrow>
      retryRun fn sleep ctxErr maxRetries retryDelay i err w
        (Invoked (Some e) # Slept retryDelay False # trace) res w'"
| last_attempt: "i = maxRetries \<Longrightarrow> fn w = (Some e, w1) \<Longrightarrow> isRetryableError e \<Longrightarrow>
      retryRun fn sleep ctxErr maxRetries retryDelay i err w
        [Invoked (Some e)] (Some (ErrRetriesExhausted maxRetries (Some e))) w1"

definition loggedWithRetry ::
  "('w \<Rightarrow> error option \<times> 'w) \<Rightarrow> (duration \<Rightarrow> 'w \<Rightarrow> bool \<times> 'w) \<Rightarrow> error \<Rightarrow>
   int \<Rightarrow> duration \<Rightarrow> 'w \<Rightarrow> error option \<times> retry_event list \<times> 'w" where
  "loggedWithRetry fn sleep ctxErr maxRetries retryDelay w =
     WithRetry (loggedFn fn) (loggedSleep sleep) ctxErr maxRetries retryDelay ([], w)"

text \<open>
  Sample operations for the retry loop, on a world that counts the calls: an operation
  that fails with a deadlock until it has been called \<open>k\<close> times, one that always fails
  with an error that is not transient, and waits that are never or always interrupted.
\<close>

definition deadlock :: error where
  "deadlock = PqError ''pq: deadlock detected''"

definition flakyOp :: "nat \<Rightarrow> nat \<Rightarrow> error option \<times> nat" where
  "flakyOp k n = (if n < k then Some deadlock else None, n + 1)"

definition failingOp :: "nat \<Rightarrow> error option \<times> nat" where
  "failingOp n = (Some ErrEventNotFound, n + 1)"

definition waitDone :: "duration \<Rightarrow> nat \<Rightarrow> bool \<times> nat" where
  "waitDone d n = (False, n)"

definition waitCancelled :: "duration \<Rightarrow> nat \<Rightarrow> bool \<times> nat" where
  "waitCancelled d n = (True, n)"

definition ctxCanceled :: error where
  "ctxCanceled = OtherError ''context canceled''"

section \<open>Verified properties\<close>

subsection \<open>Decimal numbers and the ticket-id array codec\<close>

lemma isDigit_digit: "d < 10 \<Longrightarrow> isDigit (char_of (48 + d :: nat))"
  by (simp add: isDigit_def less_eq_char_def)

lemma formatNat_digits: "list_all isDigit (formatNat n)"
proof (induction n rule: formatNat.induct)
  case (1 n)
  show ?case
  proof (cases "n < 10")
    case True
    then show ?thesis by (subst formatNat.simps) (simp add: isDigit_digit)
  next
    case False
    with 1 show ?thesis by (subst formatNat.simps) (simp add: isDigit_digit)
  qed
qed

lemma formatNat_nonempty: "formatNat n \<noteq> []"
  by (subst formatNat.simps) simp

lemma digitsVal_snoc: "digitsVal (ds @ [c]) = digitsVal ds * 10 + (of_char c - 48)"
  by (simp add: digitsVal_def)

lemma digit_val: "d < 10 \<Longrightarrow> (of_char (char_of (48 + d :: nat)) :: int) - 48 = int d"
proof -
  assume d: "d < 10"
  have "(of_char (char_of (48 + d)) :: nat) = 48 + d" using d by simp
  then have "(of_nat (of_char (char_of (48 + d)) :: nat) :: int) = of_nat (48 + d)" by simp
  then have "(of_char (char_of (48 + d)) :: int) = int (48 + d)" by (simp only: of_nat_of_char)
  then show ?thesis by simp
qed

lemma digitsVal_formatNat: "digitsVal (formatNat n) = int n"
proof (induction n rule: formatNat.induct)
  case (1 n)
  show ?case
  proof (cases "n < 10")
    case True
    then show ?thesis by (subst formatNat.simps) (simp add: digitsVal_def digit_val)
  next
    case False
    with 1 have "digitsVal (formatNat (n div 10)) = int (n div 10)" by simp
    moreover have "(of_char (char_of (48 + n mod 10)) :: int) - 48 = int (n mod 10)"
      by (rule digit_val) simp
    ultimately show ?thesis using False
      by (subst formatNat.simps) (simp add: digitsVal_snoc zdiv_int zmod_int)
  qed
qed

lemma isDigit_not_sign: "isDigit c \<Longrightarrow> c \<noteq> CHR ''-'' \<and> c \<noteq> CHR ''+'' \<and> c \<noteq> CHR '',''"
  by (auto simp: isDigit_def less_eq_char_def)

lemma Atoi_formatNat: "int n < 2 ^ 63 \<Longrightarrow> Atoi (formatNat n) = Some (int n)"
proof -
  assume r: "int n < 2 ^ 63"
  obtain c r' where f: "formatNat n = c # r'"
    using formatNat_nonempty [of n] by (cases "formatNat n") auto
  have "list_all isDigit (c # r')" using formatNat_digits [of n] f by simp
  then have c: "c \<noteq> CHR ''-''" "c \<noteq> CHR ''+''" and all: "list_all isDigit (c # r')"
    using isDigit_not_sign [of c] by auto
  have v: "digitsVal (c # r') = int n" using digitsVal_formatNat [of n] f by simp
  show ?thesis
    unfolding f Atoi_def using c all v r by (simp add: Let_def)
qed

lemma parseLoop_digits:
  "list_all isDigit ds \<Longrightarrow> parseLoop (ds @ rest) ids cur = parseLoop rest ids (cur @ ds)"
  by (induction ds arbitrary: cur) auto

lemma joinInts_Cons:
  "joinInts (x # xs) sep = formatInt x @ concat (map (\<lambda>i. sep @ formatInt i) xs)"
proof -
  have "foldl (\<lambda>result i. result @ sep @ formatInt i) a xs
          = a @ concat (map (\<lambda>i. sep @ formatInt i) xs)" for a
    by (induction xs arbitrary: a) auto
  then show ?thesis by (simp add: joinInts_def)
qed

lemma parseLoop_join:
  "\<forall>i \<in> set (x # xs). 0 \<le> i \<and> i < 2 ^ 63 \<Longrightarrow>
   parseLoop (formatInt x @ concat (map (\<lambda>i. '','' @ formatInt i) xs)) acc []
     = (acc @ butlast (x # xs), formatInt (last (x # xs)))"
proof (induction xs arbitrary: x acc)
  case Nil
  then have "formatInt x = formatNat (nat x)" by (simp add: formatInt_def)
  then show ?case
    using parseLoop_digits [of "formatNat (nat x)" "[]" acc "[]"] formatNat_digits [of "nat x"]
    by simp
next
  case (Cons y ys)
  have x: "0 \<le> x" "x < 2 ^ 63" using Cons.prems by auto
  then have fx: "formatInt x = formatNat (nat x)" by (simp add: formatInt_def)
  have a: "Atoi (formatNat (nat x)) = Some x" using Atoi_formatNat [of "nat x"] x by simp
  have rest: "\<forall>i \<in> set (y # ys). 0 \<le> i \<and> i < 2 ^ 63" using Cons.prems by auto
  let ?tail = "formatInt y @ concat (map (\<lambda>i. '','' @ formatInt i) ys)"
  have "parseLoop (formatInt x @ concat (map (\<lambda>i. '','' @ formatInt i) (y # ys))) acc []
        = parseLoop (CHR '','' # ?tail) acc (formatNat (nat x))"
    using parseLoop_digits [of "formatNat (nat x)" "CHR '','' # ?tail" acc "[]"]
      formatNat_digits [of "nat x"] fx by simp
  also have "\<dots> = parseLoop ?tail (acc @ [x]) []"
    using a formatNat_nonempty [of "nat x"] by (simp add: isDigit_def less_eq_char_def)
  also have "\<dots> = ((acc @ [x]) @ butlast (y # ys), formatInt (last (y # ys)))"
    using Cons.IH [OF rest] .
  finally show ?case by simp
qed

lemma parseTicketIDs_pgArrayText:
  assumes "\<forall>i \<in> set ids. 0 \<le> i \<and> i < 2 ^ 63"
  shows "parseTicketIDs (pgArrayText ids) = ids"
proof (cases ids)
  case Nil
  then show ?thesis by (simp add: parseTicketIDs_def pgArrayText_def joinInts_def)
next
  case (Cons x xs)
  let ?J = "joinInts ids '',''"
  have J: "?J = formatInt x @ concat (map (\<lambda>i. '','' @ formatInt i) xs)"
    using Cons by (simp add: joinInts_Cons)
  have l: "0 \<le> last ids" "last ids < 2 ^ 63" using assms Cons last_in_set [of ids] by auto
  then have fl: "formatInt (last ids) = formatNat (nat (last ids))" by (simp add: formatInt_def)
  have x0: "0 \<le> x" using assms Cons by simp
  have Jne: "?J \<noteq> []" using J formatNat_nonempty [of "nat x"] x0 by (simp add: formatInt_def)
  have len: "\<not> length (pgArrayText ids) < 3" using Jne
    by (cases ?J) (simp_all add: pgArrayText_def)
  have inner: "take (length (pgArrayText ids) - 2) (drop 1 (pgArrayText ids)) = ?J"
    by (simp add: pgArrayText_def)
  have loop: "parseLoop ?J [] [] = (butlast ids, formatInt (last ids))"
    using parseLoop_join [of x xs "[]"] assms Cons J by simp
  have a: "Atoi (formatInt (last ids)) = Some (last ids)"
    using Atoi_formatNat [of "nat (last ids)"] l fl by simp
  have ne: "formatInt (last ids) \<noteq> []" using fl formatNat_nonempty by simp
  have "parseTicketIDs (pgArrayText ids) = butlast ids @ [last ids]"
    unfolding parseTicketIDs_def using len inner Jne loop a ne by (simp add: Let_def)
  then show ?thesis using Cons by simp
qed

text \<open>
  Claim C10. For every non-empty list \<open>ids\<close> of non-negative Go integers,
  \<open>parseTicketIDs\<close> applied to the array text \<open>"{" ++ joinInts(ids, ",") ++ "}"\<close>
  returns exactly \<open>ids\<close>; and \<open>parseTicketIDs\<close> applied to any string of fewer than
  three characters (the empty array \<open>"{}"\<close> among them) returns the empty list.
\<close>

theorem parseTicketIDs_roundtrip:
  "(ids \<noteq> [] \<and> (\<forall>i \<in> set ids. 0 \<le> i \<and> is_go_int i)
      \<longrightarrow> parseTicketIDs (''{'' @ joinInts ids '','' @ ''}'') = ids)
   \<and> (length s < 3 \<longrightarrow> parseTicketIDs s = [])"
proof -
  have "parseTicketIDs (''{'' @ joinInts ids '','' @ ''}'') = ids"
    if "\<forall>i \<in> set ids. 0 \<le> i \<and> is_go_int i"
  proof -
    from that have "\<forall>i \<in> set ids. 0 \<le> i \<and> i < 2 ^ 63" by (simp add: is_go_int_def)
    then show ?thesis using parseTicketIDs_pgArrayText [of ids] by (simp add: pgArrayText_def)
  qed
  moreover have "parseTicketIDs s = []" if "length s < 3"
    using that by (simp add: parseTicketIDs_def)
  ultimately show ?thesis by blast
qed

theorem parseTicketIDs_roundtrip_witness:
  "[10, 11, 12] \<noteq> ([] :: int list) \<and> list_all (\<lambda>i. 0 \<le> i \<and> is_go_int i) [10, 11, 12]
   \<and> parseTicketIDs (''{'' @ joinInts [10, 11, 12] '','' @ ''}'') = [10, 11, 12]
   \<and> length ''{}'' < 3 \<and> parseTicketIDs ''{}'' = []"
  using parseTicketIDs_roundtrip [of "[10, 11, 12]" "''{}''"]
  by (simp add: is_go_int_def)

subsection \<open>Updating tickets\<close>

lemma tickets_updateTickets:
  "tickets (updateTickets cond status dbNow db)
     = map (\<lambda>t. if cond t then t\<lparr>tk_Status := status, tk_UpdatedAt := dbNow\<rparr> else t) (tickets db)"
  by (simp add: updateTickets_def)

lemma updateTickets_none:
  assumes "\<forall>t \<in> set (tickets db). \<not> cond t"
  shows "updateTickets cond status dbNow db = db"
proof -
  have "map (\<lambda>t. if cond t then t\<lparr>tk_Status := status, tk_UpdatedAt := dbNow\<rparr> else t) (tickets db)
          = tickets db"
    using assms by (intro map_idI) auto
  then show ?thesis by (simp add: updateTickets_def)
qed


lemma in_updateTickets:
  assumes "t' \<in> set (tickets (updateTickets cond status now db))"
  shows "(t' \<in> set (tickets db) \<and> \<not> cond t')
         \<or> (\<exists>t \<in> set (tickets db). cond t \<and> t' = t\<lparr>tk_Status := status, tk_UpdatedAt := now\<rparr>)"
proof -
  from assms obtain t where t: "t \<in> set (tickets db)"
    and t': "t' = (if cond t then t\<lparr>tk_Status := status, tk_UpdatedAt := now\<rparr> else t)"
    unfolding tickets_updateTickets set_map by blast
  show ?thesis
  proof (cases "cond t")
    case True
    with t t' show ?thesis by (intro disjI2 bexI [of _ t]) simp_all
  next
    case False
    with t t' show ?thesis by simp
  qed
qed

lemma UnlockSeat_twice:
  "snd (UnlockSeat now' e s (snd (UnlockSeat now e s db))) = snd (UnlockSeat now e s db)"
proof -
  let ?cond = "\<lambda>t. seatMatches e s t \<and> tk_Status t = TicketLocked"
  let ?db' = "updateTickets ?cond TicketAvailable now db"
  have "\<not> ?cond t'" if "t' \<in> set (tickets ?db')" for t'
    using in_updateTickets [OF that] by (elim disjE bexE conjE) simp_all
  then have "\<forall>t \<in> set (tickets ?db'). \<not> ?cond t" by (intro ballI)
  then have "updateTickets ?cond TicketAvailable now' ?db' = ?db'"
    by (rule updateTickets_none)
  then show ?thesis by (simp add: UnlockSeat_def)
qed
text \<open>
  Claim C9. \<open>UnlockSeat\<close> (release) sets the seat's ticket from \<open>locked\<close> to \<open>available\<close>
  and changes nothing when no ticket of that seat is \<open>locked\<close>; it never fails; and
  applying it twice gives the same store as applying it once.
\<close>

theorem UnlockSeat_release:
  "fst (UnlockSeat now e s db) = None
   \<and> length (tickets (snd (UnlockSeat now e s db))) = length (tickets db)
   \<and> (\<forall>i < length (tickets db).
        (seatMatches e s (tickets db ! i) \<and> tk_Status (tickets db ! i) = TicketLocked
           \<longrightarrow> tickets (snd (UnlockSeat now e s db)) ! i
                 = (tickets db ! i)\<lparr>tk_Status := TicketAvailable, tk_UpdatedAt := now\<rparr>)
        \<and> (\<not> (seatMatches e s (tickets db ! i) \<and> tk_Status (tickets db ! i) = TicketLocked)
           \<longrightarrow> tickets (snd (UnlockSeat now e s db)) ! i = tickets db ! i))
   \<and> ((\<forall>t \<in> set (tickets db). seatMatches e s t \<longrightarrow> tk_Status t \<noteq> TicketLocked)
        \<longrightarrow> snd (UnlockSeat now e s db) = db)
   \<and> snd (UnlockSeat now' e s (snd (UnlockSeat now e s db))) = snd (UnlockSeat now e s db)"
proof (intro conjI)
  show "fst (UnlockSeat now e s db) = None" by (simp add: UnlockSeat_def)
  show "length (tickets (snd (UnlockSeat now e s db))) = length (tickets db)"
    by (simp add: UnlockSeat_def tickets_updateTickets)
  show "\<forall>i < length (tickets db).
        (seatMatches e s (tickets db ! i) \<and> tk_Status (tickets db ! i) = TicketLocked
           \<longrightarrow> tickets (snd (UnlockSeat now e s db)) ! i
                 = (tickets db ! i)\<lparr>tk_Status := TicketAvailable, tk_UpdatedAt := now\<rparr>)
        \<and> (\<not> (seatMatches e s (tickets db ! i) \<and> tk_Status (tickets db ! i) = TicketLocked)
           \<longrightarrow> tickets (snd (UnlockSeat now e s db)) ! i = tickets db ! i)"
    by (simp add: UnlockSeat_def tickets_updateTickets)
  show "(\<forall>t \<in> set (tickets db). seatMatches e s t \<longrightarrow> tk_Status t \<noteq> TicketLocked)
        \<longrightarrow> snd (UnlockSeat now e s db) = db"
  proof
    assume "\<forall>t \<in> set (tickets db). seatMatches e s t \<longrightarrow> tk_Status t \<noteq> TicketLocked"
    then have "\<forall>t \<in> set (tickets db). \<not> (seatMatches e s t \<and> tk_Status t = TicketLocked)"
      by simp
    then have "updateTickets (\<lambda>t. seatMatches e s t \<and> tk_Status t = TicketLocked)
                 TicketAvailable now db = db"
      by (rule updateTickets_none)
    then show "snd (UnlockSeat now e s db) = db" by (simp add: UnlockSeat_def)
  qed
  show "snd (UnlockSeat now' e s (snd (UnlockSeat now e s db))) = snd (UnlockSeat now e s db)"
    by (rule UnlockSeat_twice)
qed


theorem UnlockSeat_release_witness:
  "(1::nat) < length (tickets heldDb)
   \<and> seatMatches 1 ''S002'' (tickets heldDb ! 1) \<and> tk_Status (tickets heldDb ! 1) = TicketLocked
   \<and> tk_Status (tickets (snd (UnlockSeat (11 * Minute) 1 ''S002'' heldDb)) ! 1) = TicketAvailable
   \<and> list_all (\<lambda>t. \<not> (seatMatches 1 ''S002'' t \<and> tk_Status t = TicketLocked)) (tickets sampleDb)
   \<and> snd (UnlockSeat (11 * Minute) 1 ''S002'' sampleDb) = sampleDb
   \<and> snd (UnlockSeat (12 * Minute) 1 ''S002'' (snd (UnlockSeat (11 * Minute) 1 ''S002'' heldDb)))
        = snd (UnlockSeat (11 * Minute) 1 ''S002'' heldDb)"
proof -
  note held = UnlockSeat_release [of "11 * Minute" 1 "''S002''" heldDb "12 * Minute"]
  note free = UnlockSeat_release [of "11 * Minute" 1 "''S002''" sampleDb "12 * Minute"]
  have len: "(1::nat) < length (tickets heldDb)"
    by (simp add: heldDb_def)
  have row: "seatMatches 1 ''S002'' (tickets heldDb ! 1) \<and> tk_Status (tickets heldDb ! 1) = TicketLocked"
    by (simp add: heldDb_def sampleTicket_def seatMatches_def)
  from held have "\<forall>i < length (tickets heldDb).
        (seatMatches 1 ''S002'' (tickets heldDb ! i) \<and> tk_Status (tickets heldDb ! i) = TicketLocked
           \<longrightarrow> tickets (snd (UnlockSeat (11 * Minute) 1 ''S002'' heldDb)) ! i
                 = (tickets heldDb ! i)\<lparr>tk_Status := TicketAvailable, tk_UpdatedAt := 11 * Minute\<rparr>)
        \<and> (\<not> (seatMatches 1 ''S002'' (tickets heldDb ! i) \<and> tk_Status (tickets heldDb ! i) = TicketLocked)
           \<longrightarrow> tickets (snd (UnlockSeat (11 * Minute) 1 ''S002'' heldDb)) ! i = tickets heldDb ! i)"
    by (elim conjE)
  from this [rule_format, OF len, THEN conjunct1, rule_format, OF row]
  have "tickets (snd (UnlockSeat (11 * Minute) 1 ''S002'' heldDb)) ! 1
      = (tickets heldDb ! 1)\<lparr>tk_Status := TicketAvailable, tk_UpdatedAt := 11 * Minute\<rparr>" .
  then have avail:
    "tk_Status (tickets (snd (UnlockSeat (11 * Minute) 1 ''S002'' heldDb)) ! 1) = TicketAvailable"
    by simp
  have none: "\<forall>t \<in> set (tickets sampleDb). seatMatches 1 ''S002'' t \<longrightarrow> tk_Status t \<noteq> TicketLocked"
    by (simp add: sampleDb_def sampleTicket_def seatMatches_def)
  from free have "(\<forall>t \<in> set (tickets sampleDb). seatMatches 1 ''S002'' t \<longrightarrow> tk_Status t \<noteq> TicketLocked)
        \<longrightarrow> snd (UnlockSeat (11 * Minute) 1 ''S002'' sampleDb) = sampleDb"
    by (elim conjE)
  from this none have noop: "snd (UnlockSeat (11 * Minute) 1 ''S002'' sampleDb) = sampleDb"
    by (rule mp)
  from held have twice:
    "snd (UnlockSeat (12 * Minute) 1 ''S002'' (snd (UnlockSeat (11 * Minute) 1 ''S002'' heldDb)))
        = snd (UnlockSeat (11 * Minute) 1 ''S002'' heldDb)"
    by (elim conjE)
  from none have none':
    "list_all (\<lambda>t. \<not> (seatMatches 1 ''S002'' t \<and> tk_Status t = TicketLocked)) (tickets sampleDb)"
    by (simp add: list_all_iff)
  show ?thesis
    by (intro conjI) (rule len row [THEN conjunct1] row [THEN conjunct2] avail none' noop twice)+
qed

subsection \<open>Reclaiming stale holds\<close>

lemma exactFloat64_simps [simp]:
  "f64_of_int exactFloat64 n = real_of_int n"
  "f64_add exactFloat64 x y = x + y"
  "f64_mul exactFloat64 x y = x * y"
  "f64_div exactFloat64 x y = x / y"
  by (simp_all add: exactFloat64_def)

text \<open>
  What the sweep does, for every hold lifetime: with \<open>k = lockDurationMinutes\<close>, exactly the
  \<open>locked\<close> tickets whose \<open>updated_at\<close> lies more than \<open>k\<close> minutes before the store's
  \<open>NOW()\<close> become \<open>available\<close>, with a fresh \<open>updated_at\<close>; no other ticket and no other
  table changes, and the result is \<open>nil\<close>.
\<close>

lemma CleanupExpiredLocks_sweep:
  "fst (CleanupExpiredLocks fp cfg now db) = None
   \<and> length (tickets (snd (CleanupExpiredLocks fp cfg now db))) = length (tickets db)
   \<and> (\<forall>i < length (tickets db).
        (tk_Status (tickets db ! i) = TicketLocked
           \<and> tk_UpdatedAt (tickets db ! i) < now - lockDurationMinutes fp cfg * Minute
           \<longrightarrow> tickets (snd (CleanupExpiredLocks fp cfg now db)) ! i
                 = (tickets db ! i)\<lparr>tk_Status := TicketAvailable, tk_UpdatedAt := now\<rparr>)
        \<and> (\<not> (tk_Status (tickets db ! i) = TicketLocked
                \<and> tk_UpdatedAt (tickets db ! i) < now - lockDurationMinutes fp cfg * Minute)
           \<longrightarrow> tickets (snd (CleanupExpiredLocks fp cfg now db)) ! i = tickets db ! i))
   \<and> events (snd (CleanupExpiredLocks fp cfg now db)) = events db
   \<and> bookings (snd (CleanupExpiredLocks fp cfg now db)) = bookings db
   \<and> users (snd (CleanupExpiredLocks fp cfg now db)) = users db"
proof (intro conjI)
  show "fst (CleanupExpiredLocks fp cfg now db) = None" by (simp add: CleanupExpiredLocks_def)
  show "length (tickets (snd (CleanupExpiredLocks fp cfg now db))) = length (tickets db)"
    by (simp add: CleanupExpiredLocks_def tickets_updateTickets)
  show "\<forall>i < length (tickets db).
        (tk_Status (tickets db ! i) = TicketLocked
           \<and> tk_UpdatedAt (tickets db ! i) < now - lockDurationMinutes fp cfg * Minute
           \<longrightarrow> tickets (snd (CleanupExpiredLocks fp cfg now db)) ! i
                 = (tickets db ! i)\<lparr>tk_Status := TicketAvailable, tk_UpdatedAt := now\<rparr>)
        \<and> (\<not> (tk_Status (tickets db ! i) = TicketLocked
                \<and> tk_UpdatedAt (tickets db ! i) < now - lockDurationMinutes fp cfg * Minute)
           \<longrightarrow> tickets (snd (CleanupExpiredLocks fp cfg now db)) ! i = tickets db ! i)"
    by (simp add: CleanupExpiredLocks_def tickets_updateTickets lockExpired_def)
  show "events (snd (CleanupExpiredLocks fp cfg now db)) = events db"
    by (simp add: CleanupExpiredLocks_def updateTickets_def)
  show "bookings (snd (CleanupExpiredLocks fp cfg now db)) = bookings db"
    by (simp add: CleanupExpiredLocks_def updateTickets_def)
  show "users (snd (CleanupExpiredLocks fp cfg now db)) = users db"
    by (simp add: CleanupExpiredLocks_def updateTickets_def)
qed

text \<open>
  The number of minutes the sweep uses for a hold lifetime of three minutes and for one
  of 90 seconds: \<open>Minutes\<close> gives 3 and 1.5, and the conversion to \<open>int\<close> 3 and 1.
\<close>

lemma lockDurationMinutes_sample:
  "Minutes exactFloat64 (SeatLockDuration sampleConfig) = 3"
  "lockDurationMinutes exactFloat64 sampleConfig = 3"
  "Minutes exactFloat64 (SeatLockDuration shortLockConfig) = 3 / 2"
  "lockDurationMinutes exactFloat64 shortLockConfig = 1"
  by (simp_all add: lockDurationMinutes_def Minutes_def intOfFloat64_def quoInt_def remInt_def
      shortLockConfig_def sampleConfig_def Minute_def Second_def)

text \<open>
  Claim C8 at a hold lifetime of 90 seconds (\<open>SEAT_LOCK_DURATION=90s\<close>). The sweep uses
  one minute, because the conversion to \<open>int\<close> discards the fraction of 1.5 minutes. Seat
  S002 was held 70 seconds before the sweep: its hold is not older than the hold
  lifetime, so by the claim, and by the comment of the function ("removes locks older
  than the configured seat lock duration"), it stays \<open>locked\<close>. The sweep sets it back to
  \<open>available\<close>.
\<close>

theorem CleanupExpiredLocks_early_reclaim:
  "SeatLockDuration shortLockConfig = 90 * Second
   \<and> lockDurationMinutes exactFloat64 shortLockConfig = 1
   \<and> tk_SeatNo (tickets heldDb ! 1) = ''S002''
   \<and> tk_Status (tickets heldDb ! 1) = TicketLocked
   \<and> tk_UpdatedAt (tickets heldDb ! 1) = (10 * Minute + 70 * Second) - 70 * Second
   \<and> \<not> tk_UpdatedAt (tickets heldDb ! 1) < (10 * Minute + 70 * Second) - SeatLockDuration shortLockConfig
   \<and> fst (CleanupExpiredLocks exactFloat64 shortLockConfig (10 * Minute + 70 * Second) heldDb) = None
   \<and> tk_Status (tickets (snd (CleanupExpiredLocks exactFloat64 shortLockConfig
                                (10 * Minute + 70 * Second) heldDb)) ! 1)
        = TicketAvailable"
proof -
  have cfg: "SeatLockDuration shortLockConfig = 90 * Second"
    by (simp add: shortLockConfig_def sampleConfig_def)
  have row: "tk_SeatNo (tickets heldDb ! 1) = ''S002''"
    "tk_Status (tickets heldDb ! 1) = TicketLocked"
    "tk_UpdatedAt (tickets heldDb ! 1) = (10 * Minute + 70 * Second) - 70 * Second"
    by (simp_all add: heldDb_def sampleTicket_def)
  have young: "\<not> tk_UpdatedAt (tickets heldDb ! 1)
      < (10 * Minute + 70 * Second) - SeatLockDuration shortLockConfig"
    by (simp add: cfg heldDb_def sampleTicket_def Second_def)
  have nil: "fst (CleanupExpiredLocks exactFloat64 shortLockConfig (10 * Minute + 70 * Second) heldDb)
      = None"
    by (simp add: CleanupExpiredLocks_def)
  have swept: "tk_Status (tickets (snd (CleanupExpiredLocks exactFloat64 shortLockConfig
      (10 * Minute + 70 * Second) heldDb)) ! 1) = TicketAvailable"
    by (simp add: CleanupExpiredLocks_def tickets_updateTickets lockExpired_def
        lockDurationMinutes_sample(4) heldDb_def sampleTicket_def Minute_def Second_def)
  show ?thesis
    using cfg lockDurationMinutes_sample(4) row young nil swept by (intro conjI)
qed

subsection \<open>The retry loop: first attempt\<close>

lemma WithRetry_first_error:
  assumes "fn w = (Some e, w1)" and "\<not> isRetryableError e" and "0 \<le> maxRetries"
  shows "WithRetry fn sleep ctxErr maxRetries retryDelay w = (Some e, w1)"
  unfolding WithRetry_def using assms by (subst WithRetryLoop.simps) simp

lemma WithRetry_first_ok:
  assumes "fn w = (None, w1)" and "0 \<le> maxRetries"
  shows "WithRetry fn sleep ctxErr maxRetries retryDelay w = (None, w1)"
  unfolding WithRetry_def using assms by (subst WithRetryLoop.simps) simp

lemma BookTickets_error:
  assumes "bookTicketsWithLock fp cfg (env_Clock env 0) request db = Inl e"
    and "\<not> isRetryableError e"
  shows "BookTickets fp cfg env request db = ((None, Some e), db)"
proof -
  have "bookAttempt fp cfg env request (0, db, None) = (Some e, (1, db, None))"
    using assms(1) by (simp add: bookAttempt_def WithTransaction_def)
  then have "WithRetry (bookAttempt fp cfg env request) (bookSleep env) (env_CtxErr env)
               3 (100 * Millisecond) (0, db, None) = (Some e, (1, db, None))"
    using assms(2) by (intro WithRetry_first_error) simp_all
  then show ?thesis by (simp add: BookTickets_def)
qed

lemma BookTickets_ok:
  assumes "bookTicketsWithLock fp cfg (env_Clock env 0) request db = Inr (b, db')"
  shows "BookTickets fp cfg env request db = ((Some b, None), db')"
proof -
  have "bookAttempt fp cfg env request (0, db, None) = (None, (1, db', Some b))"
    using assms by (simp add: bookAttempt_def WithTransaction_def)
  then have "WithRetry (bookAttempt fp cfg env request) (bookSleep env) (env_CtxErr env)
               3 (100 * Millisecond) (0, db, None) = (None, (1, db', Some b))"
    by (intro WithRetry_first_ok) simp_all
  then show ?thesis by (simp add: BookTickets_def)
qed

subsection \<open>Booking: the branches of the transaction\<close>

lemma bookTicketsWithLock_started:
  assumes "find (\<lambda>e. ev_ID e = rq_EventID request) (events db) = Some event"
    and "ev_StartTime event < ck_Validate clk"
  shows "bookTicketsWithLock fp cfg clk request db = Inl ErrEventStarted"
  using assms by (simp add: bookTicketsWithLock_def)

lemma bookTicketsWithLock_insufficient:
  assumes "find (\<lambda>e. ev_ID e = rq_EventID request) (events db) = Some event"
    and "\<not> ev_StartTime event < ck_Validate clk"
    and "0 \<le> rq_Quantity request"
    and "int (length (lockedTickets (rq_EventID request) db)) < rq_Quantity request"
  shows "bookTicketsWithLock fp cfg clk request db
           = Inl (ErrInsufficientLocked (int (length (lockedTickets (rq_EventID request) db)))
                    (rq_Quantity request))"
proof -
  have "take (nat (rq_Quantity request)) (lockedTickets (rq_EventID request) db)
          = lockedTickets (rq_EventID request) db"
    using assms(4) by simp
  then show ?thesis using assms by (simp add: bookTicketsWithLock_def Let_def)
qed

lemma isRetryableError_ErrEventStarted: "\<not> isRetryableError ErrEventStarted"
  by code_simp

lemma updateTickets_other_tables [simp]:
  "events (updateTickets cond status dbNow db) = events db"
  "users (updateTickets cond status dbNow db) = users db"
  "bookings (updateTickets cond status dbNow db) = bookings db"
  "bookings_id_seq (updateTickets cond status dbNow db) = bookings_id_seq db"
  by (simp_all add: updateTickets_def)

text \<open>The transaction after its guards: the three writes of steps 5 to 7.\<close>

lemma bookTicketsWithLock_writes:
  assumes "find (\<lambda>e. ev_ID e = rq_EventID request) (events db) = Some event"
    and "\<not> ev_StartTime event < ck_Validate clk"
    and "0 \<le> rq_Quantity request"
    and "rq_Quantity request \<le> int (length (lockedTickets (rq_EventID request) db))"
    and "ticketIDs = map tk_ID (take (nat (rq_Quantity request)) (lockedTickets (rq_EventID request) db))"
  shows "bookTicketsWithLock fp cfg clk request db =
           (case updateAvailableTickets (ck_DB clk) (rq_EventID request) (- rq_Quantity request)
                   (updateTickets (\<lambda>t. tk_ID t \<in> set ticketIDs) TicketReserved (ck_DB clk) db) of
              Inl err \<Rightarrow> Inl (ErrUpdateEvent err)
            | Inr db2 \<Rightarrow>
                (case insertBooking (pendingBooking fp cfg clk request event ticketIDs
                                       (bookings_id_seq db2 + 1)) db2 of
                   Inl err \<Rightarrow> Inl (ErrCreateBooking err)
                 | Inr db3 \<Rightarrow> Inr (pendingBooking fp cfg clk request event ticketIDs
                                     (bookings_id_seq db2 + 1), db3)))"
proof -
  have m: "min (length (lockedTickets (rq_EventID request) db)) (nat (rq_Quantity request))
             = nat (rq_Quantity request)"
    using assms(3,4) by simp
  show ?thesis
    using assms(1,2,3) unfolding bookTicketsWithLock_def assms(5)
    by (simp add: Let_def m split: sum.splits)
qed

lemma updateAvailableTickets_InrD:
  assumes "updateAvailableTickets dbNow eventID delta db = Inr db2"
  shows "db2 = db\<lparr>events :=
                  map (\<lambda>e. if ev_ID e = eventID
                            then e\<lparr>ev_AvailableTickets := ev_AvailableTickets e + delta,
                                   ev_UpdatedAt := dbNow\<rparr>
                            else e) (events db)\<rparr>"
    and "\<not> list_ex (\<lambda>e. ev_ID e = eventID \<and> ev_AvailableTickets e + delta < 0) (events db)"
proof -
  show c: "\<not> list_ex (\<lambda>e. ev_ID e = eventID \<and> ev_AvailableTickets e + delta < 0) (events db)"
    using assms by (intro notI) (simp add: updateAvailableTickets_def)
  show "db2 = db\<lparr>events :=
                  map (\<lambda>e. if ev_ID e = eventID
                            then e\<lparr>ev_AvailableTickets := ev_AvailableTickets e + delta,
                                   ev_UpdatedAt := dbNow\<rparr>
                            else e) (events db)\<rparr>"
    using assms c by (simp add: updateAvailableTickets_def)
qed

lemma bookingInsertViolation_tables:
  "users db2 = users db \<Longrightarrow> bookings db2 = bookings db \<Longrightarrow>
   bookingInsertViolation b db2 = bookingInsertViolation b db"
  by (simp add: bookingInsertViolation_def)

lemma bookingInsertViolation_None:
  "bookingInsertViolation b db = None \<longleftrightarrow>
     0 < bk_Quantity b \<and> 0 \<le> bk_TotalAmount b
     \<and> list_ex (\<lambda>u. us_ID u = bk_UserID b) (users db)
     \<and> \<not> list_ex (\<lambda>b'. bk_ID b' = bk_ID b) (bookings db)
     \<and> \<not> list_ex (\<lambda>b'. bk_BookingRef b' = bk_BookingRef b) (bookings db)"
  by (simp add: bookingInsertViolation_def)

text \<open>What a successful booking transaction has checked and written.\<close>

lemma bookTicketsWithLock_InrD:
  assumes ok: "bookTicketsWithLock fp cfg clk request db = Inr (b, db')"
  defines "ticketIDs \<equiv>
    map tk_ID (take (nat (rq_Quantity request)) (lockedTickets (rq_EventID request) db))"
  shows "\<exists>event.
      find (\<lambda>e. ev_ID e = rq_EventID request) (events db) = Some event
      \<and> \<not> ev_StartTime event < ck_Validate clk
      \<and> 0 < rq_Quantity request
      \<and> rq_Quantity request \<le> int (length (lockedTickets (rq_EventID request) db))
      \<and> b = pendingBooking fp cfg clk request event ticketIDs (bookings_id_seq db + 1)
      \<and> updateAvailableTickets (ck_DB clk) (rq_EventID request) (- rq_Quantity request)
            (updateTickets (\<lambda>t. tk_ID t \<in> set ticketIDs) TicketReserved (ck_DB clk) db)
          = Inr (db'\<lparr>bookings := bookings db, bookings_id_seq := bookings_id_seq db\<rparr>)
      \<and> bookings db' = bookings db @ [b]
      \<and> bookings_id_seq db' = bk_ID b
      \<and> bookingInsertViolation b db = None"
proof -
  obtain event where ev: "find (\<lambda>e. ev_ID e = rq_EventID request) (events db) = Some event"
    using ok by (cases "find (\<lambda>e. ev_ID e = rq_EventID request) (events db)")
      (simp_all add: bookTicketsWithLock_def)
  have ns: "\<not> ev_StartTime event < ck_Validate clk"
    using ok ev by (intro notI) (simp add: bookTicketsWithLock_def)
  have q0: "0 \<le> rq_Quantity request"
    using ok ev ns by (intro leI notI) (simp add: bookTicketsWithLock_def)
  have enough: "rq_Quantity request \<le> int (length (lockedTickets (rq_EventID request) db))"
  proof (rule ccontr)
    assume "\<not> ?thesis"
    then have "int (length (lockedTickets (rq_EventID request) db)) < rq_Quantity request"
      by simp
    from bookTicketsWithLock_insufficient [OF ev ns q0 this, of fp cfg] ok show False by simp
  qed
  let ?db1 = "updateTickets (\<lambda>t. tk_ID t \<in> set ticketIDs) TicketReserved (ck_DB clk) db"
  note eq = bookTicketsWithLock_writes [OF ev ns q0 enough ticketIDs_def [THEN meta_eq_to_obj_eq], of fp cfg]
  obtain db2 where up: "updateAvailableTickets (ck_DB clk) (rq_EventID request)
      (- rq_Quantity request) ?db1 = Inr db2"
    using ok eq
    by (cases "updateAvailableTickets (ck_DB clk) (rq_EventID request) (- rq_Quantity request) ?db1")
      simp_all
  have db2: "bookings db2 = bookings db" "bookings_id_seq db2 = bookings_id_seq db"
    "users db2 = users db"
    by (simp_all add: updateAvailableTickets_InrD(1) [OF up])
  let ?b = "pendingBooking fp cfg clk request event ticketIDs (bookings_id_seq db + 1)"
  have "(case insertBooking ?b db2 of
           Inl err \<Rightarrow> Inl (ErrCreateBooking err)
         | Inr db3 \<Rightarrow> Inr (?b, db3)) = Inr (b, db')"
    using ok unfolding eq up by (simp add: db2 cong: sum.case_cong)
  then have ins: "insertBooking ?b db2 = Inr db'" and b: "b = ?b"
    by (cases "insertBooking ?b db2"; simp)+
  have viol: "bookingInsertViolation ?b db2 = None"
    using ins by (cases "bookingInsertViolation ?b db2") (simp_all add: insertBooking_def)
  then have db': "db' = db2\<lparr>bookings := bookings db2 @ [?b], bookings_id_seq := bk_ID ?b\<rparr>"
    using ins by (simp add: insertBooking_def)
  have viol': "bookingInsertViolation ?b db = None"
    using viol bookingInsertViolation_tables [of db2 db ?b] db2 by simp
  have qpos: "0 < rq_Quantity request"
    using viol' [unfolded bookingInsertViolation_None] by (simp add: pendingBooking_def)
  have undo: "db'\<lparr>bookings := bookings db, bookings_id_seq := bookings_id_seq db\<rparr> = db2"
    using db' db2 by simp
  show ?thesis
    using ev ns qpos enough b up undo db' db2 viol' by (intro exI [of _ event]) simp
qed

subsection \<open>The sample store\<close>

lemma find_sampleEvent:
  "find (\<lambda>e. ev_ID e = rq_EventID (sampleRequest q)) (events sampleDb) = Some sampleEvent"
  "find (\<lambda>e. ev_ID e = rq_EventID (sampleRequest q)) (events heldDb) = Some sampleEvent"
  by (simp_all add: sampleRequest_def sampleDb_def heldDb_def sampleEvent_def)

lemma lockedTickets_sample:
  "lockedTickets (rq_EventID (sampleRequest q)) sampleDb = []"
  "lockedTickets (rq_EventID (sampleRequest q)) heldDb
     = [sampleTicket 2 ''S002'' TicketLocked (10 * Minute)]"
  by (simp_all add: lockedTickets_def sampleRequest_def sampleDb_def heldDb_def sampleTicket_def)

lemma book_heldDb:
  assumes "now \<le> 1000 * Minute"
  shows "bookTicketsWithLock exactFloat64 sampleConfig (sampleClock now) (sampleRequest 1) heldDb
           = Inr (sampleBooking now, reservedDb now)"
proof -
  have ns: "\<not> ev_StartTime sampleEvent < ck_Validate (sampleClock now)"
    using assms by (simp add: sampleEvent_def sampleClock_def)
  have ids: "[2] = map tk_ID (take (nat (rq_Quantity (sampleRequest 1)))
      (lockedTickets (rq_EventID (sampleRequest 1)) heldDb))"
    by (simp add: lockedTickets_sample) (simp add: sampleRequest_def sampleTicket_def)
  have up: "updateAvailableTickets (ck_DB (sampleClock now)) (rq_EventID (sampleRequest 1))
      (- rq_Quantity (sampleRequest 1))
      (updateTickets (\<lambda>t. tk_ID t \<in> set [2]) TicketReserved (ck_DB (sampleClock now)) heldDb)
    = Inr ((reservedDb now)\<lparr>bookings := [], bookings_id_seq := 0\<rparr>)"
    by (simp add: updateAvailableTickets_def updateTickets_def heldDb_def sampleDb_def
        sampleRequest_def sampleClock_def sampleEvent_def sampleTicket_def reservedDb_def)
  have ins: "insertBooking (sampleBooking now) ((reservedDb now)\<lparr>bookings := [], bookings_id_seq := 0\<rparr>)
      = Inr (reservedDb now)"
    by (simp add: insertBooking_def bookingInsertViolation_def reservedDb_def sampleBooking_def
        pendingBooking_def sampleRequest_def sampleEvent_def sampleUser_def)
  have q0: "0 \<le> rq_Quantity (sampleRequest 1)"
    and enough: "rq_Quantity (sampleRequest 1)
      \<le> int (length (lockedTickets (rq_EventID (sampleRequest 1)) heldDb))"
    by (simp_all add: lockedTickets_sample) (simp_all add: sampleRequest_def)
  show ?thesis
    unfolding bookTicketsWithLock_writes [OF find_sampleEvent(2) ns q0 enough ids] up
    by (simp add: ins sampleBooking_def [symmetric])
qed

subsection \<open>Booking after the event has started\<close>

text \<open>
  Claim C6 as stated fails at the boundary: a booking attempt made exactly at the start
  time of the event succeeds, because the guard is \<open>time.Now().After(event.StartTime)\<close>.
\<close>

theorem book_at_start_time_counterexample:
  "ev_StartTime sampleEvent \<le> ck_Validate (env_Clock (sampleEnv (1000 * Minute)) 0)
   \<and> GetEvent (rq_EventID (sampleRequest 1)) heldDb = Inr sampleEvent
   \<and> BookTickets exactFloat64 sampleConfig (sampleEnv (1000 * Minute)) (sampleRequest 1) heldDb
       = ((Some (sampleBooking (1000 * Minute)), None), reservedDb (1000 * Minute))"
proof -
  have "bookTicketsWithLock exactFloat64 sampleConfig (env_Clock (sampleEnv (1000 * Minute)) 0)
          (sampleRequest 1) heldDb
        = Inr (sampleBooking (1000 * Minute), reservedDb (1000 * Minute))"
    using book_heldDb [of "1000 * Minute"] by (simp add: sampleEnv_def)
  then have "BookTickets exactFloat64 sampleConfig (sampleEnv (1000 * Minute)) (sampleRequest 1) heldDb
       = ((Some (sampleBooking (1000 * Minute)), None), reservedDb (1000 * Minute))"
    by (rule BookTickets_ok)
  moreover have "ev_StartTime sampleEvent \<le> ck_Validate (env_Clock (sampleEnv (1000 * Minute)) 0)"
    by (simp add: sampleEvent_def sampleEnv_def sampleClock_def)
  moreover have "GetEvent (rq_EventID (sampleRequest 1)) heldDb = Inr sampleEvent"
    by (simp add: GetEvent_def find_sampleEvent)
  ultimately show ?thesis by (intro conjI)
qed

text \<open>
  Claim C6, amended. For every book request on an existing event, if the time of the
  check is strictly later than the event's start time, then the transaction fails with
  the error "event has already started", \<open>BookTickets\<close> returns that error without a
  retry and without a booking, and the store is unchanged. A book attempt one second
  after the start time is such a request.
\<close>

theorem book_after_start_fails:
  assumes "find (\<lambda>e. ev_ID e = rq_EventID request) (events db) = Some event"
    and "ev_StartTime event < ck_Validate (env_Clock env 0)"
  shows "bookTicketsWithLock fp cfg (env_Clock env 0) request db = Inl ErrEventStarted
   \<and> BookTickets fp cfg env request db = ((None, Some ErrEventStarted), db)
   \<and> Error ErrEventStarted = ''event has already started''"
proof -
  have tx: "bookTicketsWithLock fp cfg (env_Clock env 0) request db = Inl ErrEventStarted"
    using assms by (rule bookTicketsWithLock_started)
  then have "BookTickets fp cfg env request db = ((None, Some ErrEventStarted), db)"
    using isRetryableError_ErrEventStarted by (rule BookTickets_error)
  with tx show ?thesis by simp
qed

theorem book_after_start_fails_witness:
  "find (\<lambda>e. ev_ID e = rq_EventID (sampleRequest 1)) (events heldDb) = Some sampleEvent
   \<and> ck_Validate (env_Clock (sampleEnv (1000 * Minute + Second)) 0)
        = ev_StartTime sampleEvent + Second
   \<and> ev_StartTime sampleEvent < ck_Validate (env_Clock (sampleEnv (1000 * Minute + Second)) 0)
   \<and> bookTicketsWithLock exactFloat64 sampleConfig (env_Clock (sampleEnv (1000 * Minute + Second)) 0)
        (sampleRequest 1) heldDb = Inl ErrEventStarted
   \<and> BookTickets exactFloat64 sampleConfig (sampleEnv (1000 * Minute + Second)) (sampleRequest 1) heldDb
        = ((None, Some ErrEventStarted), heldDb)"
proof -
  have late: "ev_StartTime sampleEvent < ck_Validate (env_Clock (sampleEnv (1000 * Minute + Second)) 0)"
    by (simp add: sampleEvent_def sampleEnv_def sampleClock_def Second_def)
  have second: "ck_Validate (env_Clock (sampleEnv (1000 * Minute + Second)) 0)
        = ev_StartTime sampleEvent + Second"
    by (simp add: sampleEvent_def sampleEnv_def sampleClock_def)
  note fails = book_after_start_fails [OF find_sampleEvent(2) late, of exactFloat64 sampleConfig]
  show ?thesis
    using find_sampleEvent(2) [of 1] second late fails by (intro conjI) simp_all
qed

subsection \<open>Booking without enough held seats\<close>

lemma isRetryableError_insufficient_0_3: "\<not> isRetryableError (ErrInsufficientLocked 0 3)"
  by code_simp

lemma bookingErrorStatus_insufficient_0_3:
  "bookingErrorStatus (ErrInsufficientLocked 0 3) = StatusInternalServerError"
  by code_simp

text \<open>
  Claim C3 at the input of the spec's scenario "missing holds": event 1 exists and has
  not started, no seat is held, and three seats are requested. The transaction fails with
  the insufficient-seats error, whose message gives the found count 0 and the requested
  quantity 3, and the store is unchanged; but the handler looks for the text
  "insufficient tickets", which this message does not contain, and answers with status
  500 instead of 400.
\<close>

theorem BookTicketsHandler_insufficient_status:
  "GetEvent (rq_EventID (sampleRequest 3)) sampleDb = Inr sampleEvent
   \<and> \<not> ev_StartTime sampleEvent < ck_Validate (env_Clock (sampleEnv (500 * Minute)) 0)
   \<and> lockedTickets (rq_EventID (sampleRequest 3)) sampleDb = []
   \<and> BookTickets exactFloat64 sampleConfig (sampleEnv (500 * Minute)) (sampleRequest 3) sampleDb
       = ((None, Some (ErrInsufficientLocked 0 3)), sampleDb)
   \<and> Error (ErrInsufficientLocked 0 3)
       = ''insufficient locked seats for booking. Found 0 locked seats, need 3. Please select seats first''
   \<and> BookTicketsHandler exactFloat64 sampleConfig (sampleEnv (500 * Minute)) (sampleRequest 3) sampleDb
       = (StatusInternalServerError, sampleDb)
   \<and> StatusInternalServerError \<noteq> StatusBadRequest"
proof -
  have ev: "GetEvent (rq_EventID (sampleRequest 3)) sampleDb = Inr sampleEvent"
    by (simp add: GetEvent_def find_sampleEvent)
  have ns: "\<not> ev_StartTime sampleEvent < ck_Validate (env_Clock (sampleEnv (500 * Minute)) 0)"
    by (simp add: sampleEvent_def sampleEnv_def sampleClock_def Minute_def)
  have q: "0 \<le> rq_Quantity (sampleRequest 3)"
    "int (length (lockedTickets (rq_EventID (sampleRequest 3)) sampleDb)) < rq_Quantity (sampleRequest 3)"
    by (simp_all add: lockedTickets_sample) (simp_all add: sampleRequest_def)
  have "bookTicketsWithLock exactFloat64 sampleConfig (env_Clock (sampleEnv (500 * Minute)) 0)
          (sampleRequest 3) sampleDb = Inl (ErrInsufficientLocked 0 3)"
    using bookTicketsWithLock_insufficient [OF find_sampleEvent(1) ns q, of exactFloat64 sampleConfig]
    by (simp add: lockedTickets_sample) (simp add: sampleRequest_def)
  then have book: "BookTickets exactFloat64 sampleConfig (sampleEnv (500 * Minute)) (sampleRequest 3) sampleDb
       = ((None, Some (ErrInsufficientLocked 0 3)), sampleDb)"
    using isRetryableError_insufficient_0_3 by (rule BookTickets_error)
  have msg: "Error (ErrInsufficientLocked 0 3)
       = ''insufficient locked seats for booking. Found 0 locked seats, need 3. Please select seats first''"
    by code_simp
  have valid: "bindingValid (sampleRequest 3)"
    by (simp add: bindingValid_def sampleRequest_def)
  have handler: "BookTicketsHandler exactFloat64 sampleConfig (sampleEnv (500 * Minute)) (sampleRequest 3) sampleDb
       = (StatusInternalServerError, sampleDb)"
    by (simp add: BookTicketsHandler_def valid ev book bookingErrorStatus_insufficient_0_3)
  have differ: "StatusInternalServerError \<noteq> StatusBadRequest"
    by (simp add: StatusInternalServerError_def StatusBadRequest_def)
  show ?thesis
    using ev ns lockedTickets_sample(1) [of 3] book msg handler differ by (intro conjI)
qed

subsection \<open>Confirming a booking\<close>

lemma filter_ids_complete:
  assumes pk: "distinct (map tk_ID ts)"
    and n: "length (filter (\<lambda>t. tk_ID t \<in> set ids \<and> P t) ts) = length ids"
  shows "distinct ids" and "\<forall>i \<in> set ids. \<exists>t \<in> set ts. tk_ID t = i \<and> P t"
proof -
  let ?S = "{t \<in> set ts. tk_ID t \<in> set ids \<and> P t}"
  have dts: "distinct ts" using pk by (simp add: distinct_map)
  have inj: "inj_on tk_ID (set ts)" using pk by (simp add: distinct_map)
  have "length (filter (\<lambda>t. tk_ID t \<in> set ids \<and> P t) ts) = card ?S"
    using dts by (simp add: distinct_length_filter Collect_conj_eq Int_commute)
  also have "card ?S = card (tk_ID ` ?S)"
    by (rule card_image [symmetric]) (rule inj_on_subset [OF inj], blast)
  finally have c: "card (tk_ID ` ?S) = length ids" using n by simp
  have sub: "tk_ID ` ?S \<subseteq> set ids" by blast
  have "card (tk_ID ` ?S) \<le> card (set ids)" by (rule card_mono [OF _ sub]) simp
  moreover have "card (set ids) \<le> length ids" by (rule card_length)
  ultimately have cs: "card (set ids) = length ids" and ce: "card (tk_ID ` ?S) = card (set ids)"
    using c by simp_all
  show "distinct ids" using cs by (simp add: card_distinct)
  have img: "tk_ID ` ?S = set ids" using sub ce by (intro card_subset_eq) simp_all
  show "\<forall>i \<in> set ids. \<exists>t \<in> set ts. tk_ID t = i \<and> P t"
  proof
    fix i assume "i \<in> set ids"
    then have "i \<in> tk_ID ` ?S" using img by simp
    then obtain t where "t \<in> ?S" and "tk_ID t = i" by (auto simp: image_iff)
    then show "\<exists>t \<in> set ts. tk_ID t = i \<and> P t" by (intro bexI [of _ t]) simp_all
  qed
qed

lemma confirmBookingTx_rejected:
  assumes "find (\<lambda>b. bk_ID b = bookingID) (bookings db) = Some booking"
  shows "bk_Status booking \<noteq> BookingPending
           \<Longrightarrow> confirmBookingTx now dbNow bookingID db = Inl ErrBookingNotPending"
    and "bk_Status booking = BookingPending \<Longrightarrow> bk_ExpiresAt booking < now
           \<Longrightarrow> confirmBookingTx now dbNow bookingID db = Inl ErrBookingExpired"
  using assms by (simp_all add: confirmBookingTx_def Let_def)

lemma confirmBookingTx_pending:
  assumes "find (\<lambda>b. bk_ID b = bookingID) (bookings db) = Some booking"
    and "bk_Status booking = BookingPending" and "\<not> bk_ExpiresAt booking < now"
    and "\<forall>i \<in> set (bk_TicketIDs booking). 0 \<le> i \<and> is_go_int i"
  shows "confirmBookingTx now dbNow bookingID db =
     (if rowsAffected (\<lambda>t. tk_ID t \<in> set (bk_TicketIDs booking) \<and> tk_Status t = TicketReserved) db
           \<noteq> length (bk_TicketIDs booking)
      then Inl ErrTicketsNotConfirmed
      else Inr ((), updateBookingStatus bookingID BookingConfirmed dbNow
                      (updateTickets
                         (\<lambda>t. tk_ID t \<in> set (bk_TicketIDs booking) \<and> tk_Status t = TicketReserved)
                         TicketSold dbNow db)))"
proof -
  have "\<forall>i \<in> set (bk_TicketIDs booking). 0 \<le> i \<and> i < 2 ^ 63"
    using assms(4) by (simp add: is_go_int_def)
  then have "parseTicketIDs (pgArrayText (bk_TicketIDs booking)) = bk_TicketIDs booking"
    by (rule parseTicketIDs_pgArrayText)
  then show ?thesis using assms(1,2,3) by (simp add: confirmBookingTx_def Let_def)
qed

lemma find_booking_update:
  "find (\<lambda>b. bk_ID b = i)
     (map (\<lambda>b. if bk_ID b = i then b\<lparr>bk_Status := s, bk_UpdatedAt := n\<rparr> else b) bs)
   = map_option (\<lambda>b. b\<lparr>bk_Status := s, bk_UpdatedAt := n\<rparr>) (find (\<lambda>b. bk_ID b = i) bs)"
  by (induction bs) simp_all

lemma updateTickets_nth:
  assumes "k < length (tickets db)"
  shows "(cond (tickets db ! k) \<longrightarrow>
            tickets (updateTickets cond status dbNow db) ! k
              = (tickets db ! k)\<lparr>tk_Status := status, tk_UpdatedAt := dbNow\<rparr>)
         \<and> (\<not> cond (tickets db ! k) \<longrightarrow>
            tickets (updateTickets cond status dbNow db) ! k = tickets db ! k)"
  using assms by (simp add: tickets_updateTickets)

lemma updateTickets_touched:
  assumes "t \<in> set (tickets db)" and "cond t"
  shows "t\<lparr>tk_Status := status, tk_UpdatedAt := dbNow\<rparr>
           \<in> set (tickets (updateTickets cond status dbNow db))"
proof -
  have "(\<lambda>t. if cond t then t\<lparr>tk_Status := status, tk_UpdatedAt := dbNow\<rparr> else t) t
          \<in> set (tickets (updateTickets cond status dbNow db))"
    unfolding tickets_updateTickets set_map using assms(1) by (rule imageI)
  then show ?thesis using assms(2) by simp
qed

text \<open>
  Claim C4. For a booking that exists (with ticket ids that are non-negative Go integers,
  in a store whose ticket ids are unique): \<open>ConfirmBooking\<close> is rejected when the status
  is not \<open>pending\<close> and when \<open>now\<close> is strictly after \<open>expires_at\<close>; otherwise it fails
  with "some tickets could not be confirmed" when the number of the booking's tickets
  that are \<open>reserved\<close> differs from the length of \<open>ticket_ids\<close>; and otherwise it succeeds,
  every ticket of \<open>ticket_ids\<close> was \<open>reserved\<close> and is \<open>sold\<close> afterwards, no other ticket
  changes, and the booking's status is \<open>confirmed\<close>. A rejected or failed call leaves the
  store unchanged.
\<close>

theorem ConfirmBooking_transitions:
  assumes found: "find (\<lambda>b. bk_ID b = bookingID) (bookings db) = Some booking"
    and ids: "\<forall>i \<in> set (bk_TicketIDs booking). 0 \<le> i \<and> is_go_int i"
    and pk: "distinct (map tk_ID (tickets db))"
  shows
   "(bk_Status booking \<noteq> BookingPending
       \<longrightarrow> ConfirmBooking now dbNow bookingID db = (Inl ErrBookingNotPending, db))
    \<and> (bk_Status booking = BookingPending \<and> bk_ExpiresAt booking < now
       \<longrightarrow> ConfirmBooking now dbNow bookingID db = (Inl ErrBookingExpired, db))
    \<and> (bk_Status booking = BookingPending \<and> now \<le> bk_ExpiresAt booking
        \<and> rowsAffected (\<lambda>t. tk_ID t \<in> set (bk_TicketIDs booking) \<and> tk_Status t = TicketReserved) db
             \<noteq> length (bk_TicketIDs booking)
       \<longrightarrow> ConfirmBooking now dbNow bookingID db = (Inl ErrTicketsNotConfirmed, db))
    \<and> (bk_Status booking = BookingPending \<and> now \<le> bk_ExpiresAt booking
        \<and> rowsAffected (\<lambda>t. tk_ID t \<in> set (bk_TicketIDs booking) \<and> tk_Status t = TicketReserved) db
             = length (bk_TicketIDs booking)
       \<longrightarrow> fst (ConfirmBooking now dbNow bookingID db) = Inr ()
           \<and> (\<forall>i \<in> set (bk_TicketIDs booking).
                 \<exists>t \<in> set (tickets db). tk_ID t = i \<and> tk_Status t = TicketReserved)
           \<and> (\<forall>i \<in> set (bk_TicketIDs booking).
                 \<exists>t \<in> set (tickets (snd (ConfirmBooking now dbNow bookingID db))).
                   tk_ID t = i \<and> tk_Status t = TicketSold)
           \<and> length (tickets (snd (ConfirmBooking now dbNow bookingID db))) = length (tickets db)
           \<and> (\<forall>k < length (tickets db).
                 (tk_ID (tickets db ! k) \<in> set (bk_TicketIDs booking)
                    \<and> tk_Status (tickets db ! k) = TicketReserved
                  \<longrightarrow> tickets (snd (ConfirmBooking now dbNow bookingID db)) ! k
                        = (tickets db ! k)\<lparr>tk_Status := TicketSold, tk_UpdatedAt := dbNow\<rparr>)
                 \<and> (\<not> (tk_ID (tickets db ! k) \<in> set (bk_TicketIDs booking)
                        \<and> tk_Status (tickets db ! k) = TicketReserved)
                  \<longrightarrow> tickets (snd (ConfirmBooking now dbNow bookingID db)) ! k = tickets db ! k))
           \<and> find (\<lambda>b. bk_ID b = bookingID) (bookings (snd (ConfirmBooking now dbNow bookingID db)))
               = Some (booking\<lparr>bk_Status := BookingConfirmed, bk_UpdatedAt := dbNow\<rparr>))"
proof (intro conjI)
  show "bk_Status booking \<noteq> BookingPending
       \<longrightarrow> ConfirmBooking now dbNow bookingID db = (Inl ErrBookingNotPending, db)"
    using confirmBookingTx_rejected(1) [OF found] by (simp add: ConfirmBooking_def WithTransaction_def)
next
  show "bk_Status booking = BookingPending \<and> bk_ExpiresAt booking < now
       \<longrightarrow> ConfirmBooking now dbNow bookingID db = (Inl ErrBookingExpired, db)"
    using confirmBookingTx_rejected(2) [OF found] by (simp add: ConfirmBooking_def WithTransaction_def)
next
  let ?cond = "\<lambda>t. tk_ID t \<in> set (bk_TicketIDs booking) \<and> tk_Status t = TicketReserved"
  show "bk_Status booking = BookingPending \<and> now \<le> bk_ExpiresAt booking
        \<and> rowsAffected ?cond db \<noteq> length (bk_TicketIDs booking)
       \<longrightarrow> ConfirmBooking now dbNow bookingID db = (Inl ErrTicketsNotConfirmed, db)"
  proof
    assume "bk_Status booking = BookingPending \<and> now \<le> bk_ExpiresAt booking
        \<and> rowsAffected ?cond db \<noteq> length (bk_TicketIDs booking)"
    then have p: "bk_Status booking = BookingPending" "\<not> bk_ExpiresAt booking < now"
      and n: "rowsAffected ?cond db \<noteq> length (bk_TicketIDs booking)"
      by simp_all
    show "ConfirmBooking now dbNow bookingID db = (Inl ErrTicketsNotConfirmed, db)"
      unfolding ConfirmBooking_def WithTransaction_def confirmBookingTx_pending [OF found p ids]
      using n by simp
  qed
next
  let ?cond = "\<lambda>t. tk_ID t \<in> set (bk_TicketIDs booking) \<and> tk_Status t = TicketReserved"
  let ?db1 = "updateTickets ?cond TicketSold dbNow db"
  let ?db' = "updateBookingStatus bookingID BookingConfirmed dbNow ?db1"
  let ?R = "ConfirmBooking now dbNow bookingID db"
  show "bk_Status booking = BookingPending \<and> now \<le> bk_ExpiresAt booking
        \<and> rowsAffected ?cond db = length (bk_TicketIDs booking)
       \<longrightarrow> fst ?R = Inr ()
           \<and> (\<forall>i \<in> set (bk_TicketIDs booking).
                 \<exists>t \<in> set (tickets db). tk_ID t = i \<and> tk_Status t = TicketReserved)
           \<and> (\<forall>i \<in> set (bk_TicketIDs booking).
                 \<exists>t \<in> set (tickets (snd ?R)). tk_ID t = i \<and> tk_Status t = TicketSold)
           \<and> length (tickets (snd ?R)) = length (tickets db)
           \<and> (\<forall>k < length (tickets db).
                 (tk_ID (tickets db ! k) \<in> set (bk_TicketIDs booking)
                    \<and> tk_Status (tickets db ! k) = TicketReserved
                  \<longrightarrow> tickets (snd ?R) ! k
                        = (tickets db ! k)\<lparr>tk_Status := TicketSold, tk_UpdatedAt := dbNow\<rparr>)
                 \<and> (\<not> (tk_ID (tickets db ! k) \<in> set (bk_TicketIDs booking)
                        \<and> tk_Status (tickets db ! k) = TicketReserved)
                  \<longrightarrow> tickets (snd ?R) ! k = tickets db ! k))
           \<and> find (\<lambda>b. bk_ID b = bookingID) (bookings (snd ?R))
               = Some (booking\<lparr>bk_Status := BookingConfirmed, bk_UpdatedAt := dbNow\<rparr>)"
  proof
    assume a: "bk_Status booking = BookingPending \<and> now \<le> bk_ExpiresAt booking
        \<and> rowsAffected ?cond db = length (bk_TicketIDs booking)"
    then have p: "bk_Status booking = BookingPending" "\<not> bk_ExpiresAt booking < now"
      and n: "rowsAffected ?cond db = length (bk_TicketIDs booking)"
      by simp_all
    have res: "?R = (Inr (), ?db')"
      unfolding ConfirmBooking_def WithTransaction_def confirmBookingTx_pending [OF found p ids]
      using n by simp
    have tk: "tickets ?db' = tickets ?db1" by (simp add: updateBookingStatus_def)
    have all: "\<forall>i \<in> set (bk_TicketIDs booking).
        \<exists>t \<in> set (tickets db). tk_ID t = i \<and> tk_Status t = TicketReserved"
      using filter_ids_complete(2) [OF pk, of "bk_TicketIDs booking" "\<lambda>t. tk_Status t = TicketReserved"] n
      by (simp add: rowsAffected_def)
    have q1: "fst ?R = Inr ()" by (simp add: res)
    have q3: "\<forall>i \<in> set (bk_TicketIDs booking).
                 \<exists>t \<in> set (tickets (snd ?R)). tk_ID t = i \<and> tk_Status t = TicketSold"
      unfolding res snd_conv tk
    proof
      fix i assume i: "i \<in> set (bk_TicketIDs booking)"
      with all obtain t where t: "t \<in> set (tickets db)" "tk_ID t = i" "tk_Status t = TicketReserved"
        by blast
      then have c: "?cond t" using i by simp
      have "t\<lparr>tk_Status := TicketSold, tk_UpdatedAt := dbNow\<rparr> \<in> set (tickets ?db1)"
        using t(1) c by (rule updateTickets_touched)
      then show "\<exists>t \<in> set (tickets ?db1). tk_ID t = i \<and> tk_Status t = TicketSold"
        using t(2) by (intro bexI [of _ "t\<lparr>tk_Status := TicketSold, tk_UpdatedAt := dbNow\<rparr>"]) simp_all
    qed
    have q4: "length (tickets (snd ?R)) = length (tickets db)"
      unfolding res snd_conv tk by (simp add: tickets_updateTickets)
    have q5: "\<forall>k < length (tickets db).
                 (tk_ID (tickets db ! k) \<in> set (bk_TicketIDs booking)
                    \<and> tk_Status (tickets db ! k) = TicketReserved
                  \<longrightarrow> tickets (snd ?R) ! k
                        = (tickets db ! k)\<lparr>tk_Status := TicketSold, tk_UpdatedAt := dbNow\<rparr>)
                 \<and> (\<not> (tk_ID (tickets db ! k) \<in> set (bk_TicketIDs booking)
                        \<and> tk_Status (tickets db ! k) = TicketReserved)
                  \<longrightarrow> tickets (snd ?R) ! k = tickets db ! k)"
      unfolding res snd_conv tk by (intro allI impI) (rule updateTickets_nth)
    have q6: "find (\<lambda>b. bk_ID b = bookingID) (bookings (snd ?R))
               = Some (booking\<lparr>bk_Status := BookingConfirmed, bk_UpdatedAt := dbNow\<rparr>)"
      unfolding res snd_conv by (simp add: updateBookingStatus_def find_booking_update found)
    from q1 all q3 q4 q5 q6
    show "fst ?R = Inr ()
           \<and> (\<forall>i \<in> set (bk_TicketIDs booking).
                 \<exists>t \<in> set (tickets db). tk_ID t = i \<and> tk_Status t = TicketReserved)
           \<and> (\<forall>i \<in> set (bk_TicketIDs booking).
                 \<exists>t \<in> set (tickets (snd ?R)). tk_ID t = i \<and> tk_Status t = TicketSold)
           \<and> length (tickets (snd ?R)) = length (tickets db)
           \<and> (\<forall>k < length (tickets db).
                 (tk_ID (tickets db ! k) \<in> set (bk_TicketIDs booking)
                    \<and> tk_Status (tickets db ! k) = TicketReserved
                  \<longrightarrow> tickets (snd ?R) ! k
                        = (tickets db ! k)\<lparr>tk_Status := TicketSold, tk_UpdatedAt := dbNow\<rparr>)
                 \<and> (\<not> (tk_ID (tickets db ! k) \<in> set (bk_TicketIDs booking)
                        \<and> tk_Status (tickets db ! k) = TicketReserved)
                  \<longrightarrow> tickets (snd ?R) ! k = tickets db ! k))
           \<and> find (\<lambda>b. bk_ID b = bookingID) (bookings (snd ?R))
               = Some (booking\<lparr>bk_Status := BookingConfirmed, bk_UpdatedAt := dbNow\<rparr>)"
      by (intro conjI)
  qed
qed

lemma sampleBooking_fields:
  "bk_ID (sampleBooking n) = 1" "bk_TicketIDs (sampleBooking n) = [2]"
  "bk_Status (sampleBooking n) = BookingPending" "bk_Quantity (sampleBooking n) = 1"
  "bk_EventID (sampleBooking n) = 1" "bk_ExpiresAt (sampleBooking n) = n + 2 + 15 * Minute"
  "bk_TotalAmount (sampleBooking n) = 100"
  by (simp_all add: sampleBooking_def pendingBooking_def sampleRequest_def sampleClock_def
      sampleConfig_def sampleEvent_def)

lemma reservedDb_facts:
  "find (\<lambda>b. bk_ID b = 1) (bookings (reservedDb n)) = Some (sampleBooking n)"
  "distinct (map tk_ID (tickets (reservedDb n)))"
  by (simp_all add: reservedDb_def sampleBooking_fields sampleTicket_def rowsAffected_def)

theorem ConfirmBooking_transitions_witness:
  "find (\<lambda>b. bk_ID b = 1) (bookings (reservedDb (500 * Minute))) = Some (sampleBooking (500 * Minute))
   \<and> list_all (\<lambda>i. 0 \<le> i \<and> is_go_int i) (bk_TicketIDs (sampleBooking (500 * Minute)))
   \<and> distinct (map tk_ID (tickets (reservedDb (500 * Minute))))
   \<and> bk_Status (sampleBooking (500 * Minute)) = BookingPending
   \<and> 501 * Minute \<le> bk_ExpiresAt (sampleBooking (500 * Minute))
   \<and> fst (ConfirmBooking (501 * Minute) (501 * Minute) 1 (reservedDb (500 * Minute))) = Inr ()
   \<and> tk_Status (tickets (snd (ConfirmBooking (501 * Minute) (501 * Minute) 1
                                (reservedDb (500 * Minute)))) ! 1) = TicketSold
   \<and> find (\<lambda>b. bk_ID b = 1)
        (bookings (snd (ConfirmBooking (501 * Minute) (501 * Minute) 1 (reservedDb (500 * Minute)))))
       = Some ((sampleBooking (500 * Minute))\<lparr>bk_Status := BookingConfirmed,
                                               bk_UpdatedAt := 501 * Minute\<rparr>)
   \<and> bk_ExpiresAt (sampleBooking (500 * Minute)) < 600 * Minute
   \<and> ConfirmBooking (600 * Minute) (600 * Minute) 1 (reservedDb (500 * Minute))
       = (Inl ErrBookingExpired, reservedDb (500 * Minute))"
proof -
  let ?db = "reservedDb (500 * Minute)" and ?b = "sampleBooking (500 * Minute)"
  have ids: "\<forall>i \<in> set (bk_TicketIDs ?b). 0 \<le> i \<and> is_go_int i"
    by (simp add: sampleBooking_fields is_go_int_def)
  note confirm = ConfirmBooking_transitions [OF reservedDb_facts(1) ids reservedDb_facts(2)]
  have pending: "bk_Status ?b = BookingPending" by (simp add: sampleBooking_fields)
  have intime: "501 * Minute \<le> bk_ExpiresAt ?b"
    and late: "bk_ExpiresAt ?b < 600 * Minute"
    by (simp_all add: sampleBooking_fields Minute_def)
  have rows: "rowsAffected (\<lambda>t. tk_ID t \<in> set (bk_TicketIDs ?b) \<and> tk_Status t = TicketReserved) ?db
      = length (bk_TicketIDs ?b)"
    by (simp add: sampleBooking_fields rowsAffected_def reservedDb_def sampleTicket_def)
  note ok = confirm [of "501 * Minute" "501 * Minute", THEN conjunct2, THEN conjunct2,
      THEN conjunct2, THEN mp, OF conjI [OF pending conjI [OF intime rows]]]
  have k: "1 < length (tickets ?db)" by (simp add: reservedDb_def)
  have r: "tk_ID (tickets ?db ! 1) \<in> set (bk_TicketIDs ?b) \<and> tk_Status (tickets ?db ! 1) = TicketReserved"
    by (simp add: sampleBooking_fields reservedDb_def sampleTicket_def)
  from ok have "\<forall>k < length (tickets ?db).
       (tk_ID (tickets ?db ! k) \<in> set (bk_TicketIDs ?b) \<and> tk_Status (tickets ?db ! k) = TicketReserved
          \<longrightarrow> tickets (snd (ConfirmBooking (501 * Minute) (501 * Minute) 1 ?db)) ! k
                = (tickets ?db ! k)\<lparr>tk_Status := TicketSold, tk_UpdatedAt := 501 * Minute\<rparr>)
       \<and> (\<not> (tk_ID (tickets ?db ! k) \<in> set (bk_TicketIDs ?b)
                \<and> tk_Status (tickets ?db ! k) = TicketReserved)
          \<longrightarrow> tickets (snd (ConfirmBooking (501 * Minute) (501 * Minute) 1 ?db)) ! k = tickets ?db ! k)"
    by (elim conjE)
  from this [rule_format, OF k, THEN conjunct1, rule_format, OF r]
  have sold: "tk_Status (tickets (snd (ConfirmBooking (501 * Minute) (501 * Minute) 1 ?db)) ! 1)
      = TicketSold"
    by simp
  note succ = ok [THEN conjunct1]
  note row = ok [THEN conjunct2, THEN conjunct2, THEN conjunct2, THEN conjunct2, THEN conjunct2]
  note expired = confirm [of "600 * Minute" "600 * Minute", THEN conjunct2, THEN conjunct1,
      THEN mp, OF conjI [OF pending late]]
  have ids': "list_all (\<lambda>i. 0 \<le> i \<and> is_go_int i) (bk_TicketIDs ?b)"
    using ids by (simp add: list_all_iff)
  show ?thesis
    using reservedDb_facts(1) [of "500 * Minute"] ids' reservedDb_facts(2) [of "500 * Minute"]
      pending intime succ sold row late expired
    by (intro conjI)
qed

subsection \<open>The retry loop\<close>

text \<open>Every call of the loop is a run, and the wrapped operation and wait record it.\<close>

lemma WithRetryLoop_exit:
  "\<not> i \<le> maxRetries \<Longrightarrow>
   WithRetryLoop fn sleep ctxErr maxRetries retryDelay i err w
     = (Some (ErrRetriesExhausted maxRetries err), w)"
  by (subst WithRetryLoop.simps) simp

lemma WithRetryLoop_run:
  "\<exists>trace res w'.
     retryRun fn sleep ctxErr maxRetries retryDelay i err w trace res w'
     \<and> WithRetryLoop fn sleep ctxErr maxRetries retryDelay i err w = (res, w')
     \<and> (\<forall>tr0. WithRetryLoop (loggedFn fn) (loggedSleep sleep) ctxErr maxRetries retryDelay i err
                 (tr0, w) = (res, tr0 @ trace, w'))"
proof (induction "nat (maxRetries + 1 - i)" arbitrary: i err w)
  case 0
  then have out: "\<not> i \<le> maxRetries" by simp
  have "retryRun fn sleep ctxErr maxRetries retryDelay i err w []
          (Some (ErrRetriesExhausted maxRetries err)) w"
    using out by (rule retryRun.exhausted)
  moreover have "WithRetryLoop fn sleep ctxErr maxRetries retryDelay i err w
      = (Some (ErrRetriesExhausted maxRetries err), w)"
    using out by (subst WithRetryLoop.simps) simp
  moreover have "\<forall>tr0. WithRetryLoop (loggedFn fn) (loggedSleep sleep) ctxErr maxRetries retryDelay
      i err (tr0, w) = (Some (ErrRetriesExhausted maxRetries err), tr0 @ [], w)"
    using out by (subst WithRetryLoop.simps) simp
  ultimately show ?case by blast
next
  case (Suc n)
  then have inn: "i \<le> maxRetries" by simp
  obtain r w1 where f: "fn w = (r, w1)" by (cases "fn w")
  have lf: "loggedFn fn (tr0, w) = (r, tr0 @ [Invoked r], w1)" for tr0
    using f by (simp add: loggedFn_def)
  show ?case
  proof (cases r)
    case None
    have "retryRun fn sleep ctxErr maxRetries retryDelay i err w [Invoked None] None w1"
      using inn f None by (intro retryRun.succeeded) simp_all
    moreover have "WithRetryLoop fn sleep ctxErr maxRetries retryDelay i err w = (None, w1)"
      using inn f None by (subst WithRetryLoop.simps) simp
    moreover have "\<forall>tr0. WithRetryLoop (loggedFn fn) (loggedSleep sleep) ctxErr maxRetries
        retryDelay i err (tr0, w) = (None, tr0 @ [Invoked None], w1)"
      using inn lf None by (subst WithRetryLoop.simps) simp
    ultimately show ?thesis by blast
  next
    case (Some e)
    show ?thesis
    proof (cases "isRetryableError e")
      case False
      have "retryRun fn sleep ctxErr maxRetries retryDelay i err w [Invoked (Some e)] (Some e) w1"
        using inn f Some False by (intro retryRun.fatal) simp_all
      moreover have "WithRetryLoop fn sleep ctxErr maxRetries retryDelay i err w = (Some e, w1)"
        using inn f Some False by (subst WithRetryLoop.simps) simp
      moreover have "\<forall>tr0. WithRetryLoop (loggedFn fn) (loggedSleep sleep) ctxErr maxRetries
          retryDelay i err (tr0, w) = (Some e, tr0 @ [Invoked (Some e)], w1)"
        using inn lf Some False by (subst WithRetryLoop.simps) simp
      ultimately show ?thesis by blast
    next
      case True
      show ?thesis
      proof (cases "i < maxRetries")
        case False
        then have im: "i = maxRetries" using inn by simp
        have out: "\<not> i + 1 \<le> maxRetries" using im by simp
        have "retryRun fn sleep ctxErr maxRetries retryDelay i err w [Invoked (Some e)]
            (Some (ErrRetriesExhausted maxRetries (Some e))) w1"
          using im f Some True by (intro retryRun.last_attempt) simp_all
        moreover have "WithRetryLoop fn sleep ctxErr maxRetries retryDelay i err w
            = (Some (ErrRetriesExhausted maxRetries (Some e)), w1)"
          using inn f Some True False by (subst WithRetryLoop.simps) (simp add: WithRetryLoop_exit)
        moreover have "\<forall>tr0. WithRetryLoop (loggedFn fn) (loggedSleep sleep) ctxErr maxRetries
            retryDelay i err (tr0, w)
            = (Some (ErrRetriesExhausted maxRetries (Some e)), tr0 @ [Invoked (Some e)], w1)"
          using inn lf Some True False by (subst WithRetryLoop.simps) (simp add: WithRetryLoop_exit)
        ultimately show ?thesis by blast
      next
        case less: True
        obtain c w2 where s: "sleep retryDelay w1 = (c, w2)" by (cases "sleep retryDelay w1")
        have ls: "loggedSleep sleep retryDelay (tr1, w1) = (c, tr1 @ [Slept retryDelay c], w2)" for tr1
          using s by (simp add: loggedSleep_def)
        show ?thesis
        proof (cases c)
          case True
          note cancel = True
          have "retryRun fn sleep ctxErr maxRetries retryDelay i err w
              [Invoked (Some e), Slept retryDelay True] (Some ctxErr) w2"
            using less f Some \<open>isRetryableError e\<close> s cancel by (intro retryRun.cancelled) simp_all
          moreover have "WithRetryLoop fn sleep ctxErr maxRetries retryDelay i err w
              = (Some ctxErr, w2)"
            using inn less f Some \<open>isRetryableError e\<close> s cancel
            by (subst WithRetryLoop.simps) simp
          moreover have "\<forall>tr0. WithRetryLoop (loggedFn fn) (loggedSleep sleep) ctxErr maxRetries
              retryDelay i err (tr0, w)
              = (Some ctxErr, tr0 @ [Invoked (Some e), Slept retryDelay True], w2)"
            using inn less lf ls Some \<open>isRetryableError e\<close> cancel
            by (subst WithRetryLoop.simps) simp
          ultimately show ?thesis by blast
        next
          case False
          note go = False
          have m: "n = nat (maxRetries + 1 - (i + 1))" using Suc.hyps(2) by simp
          from Suc.hyps(1) [OF m, of "Some e" w2]
          obtain trace res w' where
            run: "retryRun fn sleep ctxErr maxRetries retryDelay (i + 1) (Some e) w2 trace res w'"
            and plain: "WithRetryLoop fn sleep ctxErr maxRetries retryDelay (i + 1) (Some e) w2
                = (res, w')"
            and logged: "\<And>tr0. WithRetryLoop (loggedFn fn) (loggedSleep sleep) ctxErr maxRetries
                retryDelay (i + 1) (Some e) (tr0, w2) = (res, tr0 @ trace, w')"
            by blast
          have "retryRun fn sleep ctxErr maxRetries retryDelay i err w
              (Invoked (Some e) # Slept retryDelay False # trace) res w'"
            using less f Some \<open>isRetryableError e\<close> s go run by (intro retryRun.retried) simp_all
          moreover have "WithRetryLoop fn sleep ctxErr maxRetries retryDelay i err w = (res, w')"
            using inn less f Some \<open>isRetryableError e\<close> s go plain
            by (subst WithRetryLoop.simps) simp
          moreover have "\<forall>tr0. WithRetryLoop (loggedFn fn) (loggedSleep sleep) ctxErr maxRetries
              retryDelay i err (tr0, w)
              = (res, tr0 @ Invoked (Some e) # Slept retryDelay False # trace, w')"
            using inn less lf ls Some \<open>isRetryableError e\<close> go logged
            by (subst WithRetryLoop.simps) simp
          ultimately show ?thesis by blast
        qed
      qed
    qed
  qed
qed

text \<open>Properties of a run, by induction on the run.\<close>

lemma retryRun_invocations:
  assumes "retryRun fn sleep ctxErr maxRetries retryDelay i err w trace res w'"
  shows "invocations trace \<le> nat (maxRetries + 1 - i)"
  using assms by (induction rule: retryRun.induct) (simp_all add: invocations_def)

lemma retryRun_fatal_last:
  assumes "retryRun fn sleep ctxErr maxRetries retryDelay i err w trace res w'"
    and "trace = pre @ Invoked (Some e) # post" and "\<not> isRetryableError e"
  shows "post = [] \<and> res = Some e"
  using assms
proof (induction arbitrary: pre rule: retryRun.induct)
  case (retried i w e' w1 w2 trace res w' err)
  from retried.prems retried.hyps(3) obtain pre' where "trace = pre' @ Invoked (Some e) # post"
    by (auto simp: Cons_eq_append_conv)
  then show ?case using retried.IH retried.prems(2) by blast
qed (auto simp: Cons_eq_append_conv)

lemma retryRun_success_last:
  assumes "retryRun fn sleep ctxErr maxRetries retryDelay i err w trace res w'"
    and "trace = pre @ Invoked None # post"
  shows "post = [] \<and> res = None"
  using assms
proof (induction arbitrary: pre rule: retryRun.induct)
  case (retried i w e' w1 w2 trace res w' err)
  from retried.prems obtain pre' where "trace = pre' @ Invoked None # post"
    by (auto simp: Cons_eq_append_conv)
  then show ?case using retried.IH by blast
qed (auto simp: Cons_eq_append_conv)

lemma retryRun_nonempty:
  assumes "retryRun fn sleep ctxErr maxRetries retryDelay i err w trace res w'"
    and "i \<le> maxRetries"
  shows "\<exists>r rest. trace = Invoked r # rest"
  using assms by (induction rule: retryRun.induct) simp_all

lemma retryRun_sleep:
  assumes "retryRun fn sleep ctxErr maxRetries retryDelay i err w trace res w'"
    and "trace = pre @ Slept d c # post"
  shows "d = retryDelay \<and> (\<exists>pre' e. pre = pre' @ [Invoked (Some e)] \<and> isRetryableError e)
         \<and> (c \<longrightarrow> post = [] \<and> res = Some ctxErr)
         \<and> (\<not> c \<longrightarrow> (\<exists>r post'. post = Invoked r # post'))"
  using assms
proof (induction arbitrary: pre rule: retryRun.induct)
  case (retried i w e' w1 w2 trace res w' err)
  have nxt: "\<exists>r rest. trace = Invoked r # rest"
    using retryRun_nonempty [OF retried.hyps(5)] retried.hyps(1) by simp
  from retried.prems consider
      (first) "pre = [Invoked (Some e')]" "d = retryDelay" "\<not> c" "post = trace"
    | (later) pre' where "pre = Invoked (Some e') # Slept retryDelay False # pre'"
        "trace = pre' @ Slept d c # post"
    by (auto simp: Cons_eq_append_conv)
  then show ?case
  proof cases
    case first
    then show ?thesis using nxt retried.hyps(3) by simp
  next
    case later
    from retried.IH [OF later(2)] show ?thesis using later(1) by auto
  qed
qed (auto simp: Cons_eq_append_conv)

lemma retryRun_between:
  assumes "retryRun fn sleep ctxErr maxRetries retryDelay i err w trace res w'"
    and "trace = pre @ Invoked r # post" and "post \<noteq> []"
  shows "\<exists>c post'. post = Slept retryDelay c # post'"
  using assms
proof (induction arbitrary: pre rule: retryRun.induct)
  case (retried i w e' w1 w2 trace res w' err)
  from retried.prems(1) consider
      (first) "pre = []" "post = Slept retryDelay False # trace"
    | (later) pre' where "pre = Invoked (Some e') # Slept retryDelay False # pre'"
        "trace = pre' @ Invoked r # post"
    by (auto simp: Cons_eq_append_conv)
  then show ?case
  proof cases
    case first
    then show ?thesis by blast
  next
    case later
    from retried.IH [OF later(2) retried.prems(2)] show ?thesis .
  qed
qed (auto simp: Cons_eq_append_conv)

lemma retryRun_exhausted:
  assumes "retryRun fn sleep ctxErr maxRetries retryDelay i err w trace res w'"
    and "trace \<noteq> []" and "last trace = Invoked (Some e)" and "isRetryableError e"
  shows "res = Some (ErrRetriesExhausted maxRetries (Some e))
         \<and> invocations trace = nat (maxRetries + 1 - i)"
  using assms
proof (induction rule: retryRun.induct)
  case (retried i w e' w1 w2 trace res w' err)
  have ne: "trace \<noteq> []"
    using retryRun_nonempty [OF retried.hyps(5)] retried.hyps(1) by auto
  then have "last trace = Invoked (Some e)" using retried.prems(2) by simp
  from retried.IH [OF ne this retried.prems(3)] retried.hyps(1)
  show ?case by (simp add: invocations_def)
qed (simp_all add: invocations_def)

text \<open>
  Claim C7. Let \<open>trace\<close> record, in order, the calls of \<open>fn\<close> (with their results) and
  the waits (with their delay and whether the context was done first) that
  \<open>WithRetry(ctx, maxRetries, retryDelay, fn)\<close> makes, and let \<open>res\<close> be what it returns.
  Then \<open>fn\<close> is called at most \<open>maxRetries + 1\<close> times; a call that returns an error that
  is not transient is the last thing that happens and that error is returned; a call that
  succeeds is the last thing that happens and \<open>nil\<close> is returned; a call that is
  followed by anything is followed by a wait of \<open>retryDelay\<close>; every wait has the delay
  \<open>retryDelay\<close>, follows a call that failed with a transient error, ends the run with the
  context's error when the context is done first, and is followed by the next call
  otherwise; and when the last attempt fails with a transient error, all
  \<open>maxRetries + 1\<close> attempts were made and the result is the wrapped error "operation
  failed after \<open>maxRetries\<close> retries: " followed by the message of that last error.
\<close>

theorem WithRetry_attempts:
  assumes logged: "loggedWithRetry fn sleep ctxErr maxRetries retryDelay w = (res, trace, w')"
  shows "WithRetry fn sleep ctxErr maxRetries retryDelay w = (res, w')
   \<and> invocations trace \<le> nat (maxRetries + 1)
   \<and> (\<forall>pre e post. trace = pre @ Invoked (Some e) # post \<and> \<not> isRetryableError e
         \<longrightarrow> post = [] \<and> res = Some e)
   \<and> (\<forall>pre post. trace = pre @ Invoked None # post \<longrightarrow> post = [] \<and> res = None)
   \<and> (\<forall>pre r post. trace = pre @ Invoked r # post \<and> post \<noteq> []
         \<longrightarrow> (\<exists>c post'. post = Slept retryDelay c # post'))
   \<and> (\<forall>pre d c post. trace = pre @ Slept d c # post
         \<longrightarrow> d = retryDelay
             \<and> (\<exists>pre' e. pre = pre' @ [Invoked (Some e)] \<and> isRetryableError e)
             \<and> (c \<longrightarrow> post = [] \<and> res = Some ctxErr)
             \<and> (\<not> c \<longrightarrow> (\<exists>r post'. post = Invoked r # post')))
   \<and> (\<forall>e. trace \<noteq> [] \<and> last trace = Invoked (Some e) \<and> isRetryableError e
         \<longrightarrow> res = Some (ErrRetriesExhausted maxRetries (Some e))
             \<and> Error (ErrRetriesExhausted maxRetries (Some e))
                 = ''operation failed after '' @ formatInt maxRetries @ '' retries: '' @ Error e
             \<and> invocations trace = nat (maxRetries + 1))"
proof -
  from WithRetryLoop_run [of fn sleep ctxErr maxRetries retryDelay 0 None w]
  obtain trace0 res0 w0 where
    run0: "retryRun fn sleep ctxErr maxRetries retryDelay 0 None w trace0 res0 w0"
    and plain: "WithRetryLoop fn sleep ctxErr maxRetries retryDelay 0 None w = (res0, w0)"
    and rec: "\<And>tr0. WithRetryLoop (loggedFn fn) (loggedSleep sleep) ctxErr maxRetries retryDelay
        0 None (tr0, w) = (res0, tr0 @ trace0, w0)"
    by blast
  have "loggedWithRetry fn sleep ctxErr maxRetries retryDelay w = (res0, trace0, w0)"
    using rec [of "[]"] by (simp add: loggedWithRetry_def WithRetry_def)
  with logged have eq: "res0 = res" "trace0 = trace" "w0 = w'" by simp_all
  note run = run0 [unfolded eq]
  have p0: "WithRetry fn sleep ctxErr maxRetries retryDelay w = (res, w')"
    using plain eq by (simp add: WithRetry_def)
  have p1: "invocations trace \<le> nat (maxRetries + 1)"
    using retryRun_invocations [OF run] by simp
  have p2: "\<forall>pre e post. trace = pre @ Invoked (Some e) # post \<and> \<not> isRetryableError e
         \<longrightarrow> post = [] \<and> res = Some e"
    using retryRun_fatal_last [OF run] by blast
  have p3: "\<forall>pre post. trace = pre @ Invoked None # post \<longrightarrow> post = [] \<and> res = None"
    using retryRun_success_last [OF run] by blast
  have p4: "\<forall>pre r post. trace = pre @ Invoked r # post \<and> post \<noteq> []
         \<longrightarrow> (\<exists>c post'. post = Slept retryDelay c # post')"
    using retryRun_between [OF run] by blast
  have p5: "\<forall>pre d c post. trace = pre @ Slept d c # post
         \<longrightarrow> d = retryDelay
             \<and> (\<exists>pre' e. pre = pre' @ [Invoked (Some e)] \<and> isRetryableError e)
             \<and> (c \<longrightarrow> post = [] \<and> res = Some ctxErr)
             \<and> (\<not> c \<longrightarrow> (\<exists>r post'. post = Invoked r # post'))"
    using retryRun_sleep [OF run] by blast
  have p6: "\<forall>e. trace \<noteq> [] \<and> last trace = Invoked (Some e) \<and> isRetryableError e
         \<longrightarrow> res = Some (ErrRetriesExhausted maxRetries (Some e))
             \<and> Error (ErrRetriesExhausted maxRetries (Some e))
                 = ''operation failed after '' @ formatInt maxRetries @ '' retries: '' @ Error e
             \<and> invocations trace = nat (maxRetries + 1)"
    using retryRun_exhausted [OF run] by simp
  from p0 p1 p2 p3 p4 p5 p6 show ?thesis by (intro conjI)
qed

lemma isRetryableError_deadlock: "isRetryableError deadlock"
  by code_simp

lemma isRetryableError_ErrEventNotFound: "\<not> isRetryableError ErrEventNotFound"
  by code_simp

lemma loggedWithRetry_exhausted_sample:
  "loggedWithRetry (flakyOp 5) waitDone ctxCanceled 1 (100 * Millisecond) 0
   = (Some (ErrRetriesExhausted 1 (Some deadlock)),
      [Invoked (Some deadlock), Slept (100 * Millisecond) False, Invoked (Some deadlock)], 2)"
  by code_simp

lemma loggedWithRetry_fatal_sample:
  "loggedWithRetry failingOp waitDone ctxCanceled 3 (100 * Millisecond) 0
   = (Some ErrEventNotFound, [Invoked (Some ErrEventNotFound)], 1)"
  by code_simp

lemma loggedWithRetry_cancelled_sample:
  "loggedWithRetry (flakyOp 5) waitCancelled ctxCanceled 3 (100 * Millisecond) 0
   = (Some ctxCanceled, [Invoked (Some deadlock), Slept (100 * Millisecond) True], 1)"
  by code_simp

theorem WithRetry_attempts_witness:
  "loggedWithRetry (flakyOp 5) waitDone ctxCanceled 1 (100 * Millisecond) 0
     = (Some (ErrRetriesExhausted 1 (Some deadlock)),
        [Invoked (Some deadlock), Slept (100 * Millisecond) False, Invoked (Some deadlock)], 2)
   \<and> isRetryableError deadlock
   \<and> WithRetry (flakyOp 5) waitDone ctxCanceled 1 (100 * Millisecond) 0
       = (Some (ErrRetriesExhausted 1 (Some deadlock)), 2)
   \<and> invocations [Invoked (Some deadlock), Slept (100 * Millisecond) False, Invoked (Some deadlock)]
       = nat (1 + 1)
   \<and> loggedWithRetry failingOp waitDone ctxCanceled 3 (100 * Millisecond) 0
       = (Some ErrEventNotFound, [Invoked (Some ErrEventNotFound)], 1)
   \<and> \<not> isRetryableError ErrEventNotFound
   \<and> WithRetry failingOp waitDone ctxCanceled 3 (100 * Millisecond) 0 = (Some ErrEventNotFound, 1)
   \<and> loggedWithRetry (flakyOp 5) waitCancelled ctxCanceled 3 (100 * Millisecond) 0
       = (Some ctxCanceled, [Invoked (Some deadlock), Slept (100 * Millisecond) True], 1)
   \<and> WithRetry (flakyOp 5) waitCancelled ctxCanceled 3 (100 * Millisecond) 0
       = (Some ctxCanceled, 1)"
proof -
  note a = WithRetry_attempts [OF loggedWithRetry_exhausted_sample]
  note b = WithRetry_attempts [OF loggedWithRetry_fatal_sample]
  note c = WithRetry_attempts [OF loggedWithRetry_cancelled_sample]
  let ?trace = "[Invoked (Some deadlock), Slept (100 * Millisecond) False, Invoked (Some deadlock)]"
  have l: "?trace \<noteq> [] \<and> last ?trace = Invoked (Some deadlock) \<and> isRetryableError deadlock"
    using isRetryableError_deadlock by simp
  from a have "\<forall>e. ?trace \<noteq> [] \<and> last ?trace = Invoked (Some e) \<and> isRetryableError e
         \<longrightarrow> Some (ErrRetriesExhausted 1 (Some deadlock)) = Some (ErrRetriesExhausted 1 (Some e))
             \<and> Error (ErrRetriesExhausted 1 (Some e))
                 = ''operation failed after '' @ formatInt 1 @ '' retries: '' @ Error e
             \<and> invocations ?trace = nat (1 + 1)"
    by (elim conjE)
  from this [rule_format, OF l] have n: "invocations ?trace = nat (1 + 1)" by (elim conjE)
  show ?thesis
    using loggedWithRetry_exhausted_sample isRetryableError_deadlock a [THEN conjunct1] n
      loggedWithRetry_fatal_sample isRetryableError_ErrEventNotFound b [THEN conjunct1]
      loggedWithRetry_cancelled_sample c [THEN conjunct1]
    by (intro conjI)
qed

subsection \<open>Booking under the retry loop\<close>

lemma bookAttempt_cases:
  assumes "bookAttempt fp cfg env request (n, db, bk) = (r, w1)"
  shows "(\<exists>e. r = Some e \<and> w1 = (n + 1, db, None)
            \<and> bookTicketsWithLock fp cfg (env_Clock env n) request db = Inl e)
         \<or> (\<exists>b db'. r = None \<and> w1 = (n + 1, db', Some b)
            \<and> bookTicketsWithLock fp cfg (env_Clock env n) request db = Inr (b, db'))"
proof (cases "bookTicketsWithLock fp cfg (env_Clock env n) request db")
  case (Inl e)
  then show ?thesis using assms by (simp add: bookAttempt_def WithTransaction_def)
next
  case (Inr p)
  obtain b db' where "p = (b, db')" by (cases p)
  then show ?thesis using assms Inr by (simp add: bookAttempt_def WithTransaction_def)
qed

lemma bookSleep_world: "bookSleep env d w = (c, w2) \<Longrightarrow> w2 = w"
  by (cases w) (simp add: bookSleep_def)

text \<open>
  A run of the loop around the booking transaction ends either with a successful attempt
  on the store it started from, or with an error and that store unchanged.
\<close>

lemma book_retryRun:
  assumes "retryRun (bookAttempt fp cfg env request) (bookSleep env) ctxErr maxRetries retryDelay
             i err w trace res w'"
    and "fst (snd w) = db"
  shows "(res = None \<and> (\<exists>n b db'. w' = (n + 1, db', Some b)
            \<and> bookTicketsWithLock fp cfg (env_Clock env n) request db = Inr (b, db')))
         \<or> (res \<noteq> None \<and> fst (snd w') = db \<and> (trace = [] \<and> w' = w \<or> snd (snd w') = None))"
  using assms
proof (induction rule: retryRun.induct)
  case (exhausted i err w)
  then show ?case by simp
next
  case (succeeded i w w1 err)
  obtain n bk where w: "w = (n, db, bk)" using succeeded.prems by (cases w) auto
  from bookAttempt_cases [OF succeeded.hyps(2) [unfolded w]] show ?case by auto
next
  case (fatal i w e w1 err)
  obtain n bk where w: "w = (n, db, bk)" using fatal.prems by (cases w) auto
  from bookAttempt_cases [OF fatal.hyps(2) [unfolded w]] show ?case by auto
next
  case (cancelled i w e w1 w2 err)
  obtain n bk where w: "w = (n, db, bk)" using cancelled.prems by (cases w) auto
  have "w2 = w1" using cancelled.hyps(4) by (rule bookSleep_world)
  with bookAttempt_cases [OF cancelled.hyps(2) [unfolded w]] show ?case by auto
next
  case (retried i w e w1 w2 trace res w' err)
  obtain n bk where w: "w = (n, db, bk)" using retried.prems by (cases w) auto
  have "w2 = w1" using retried.hyps(4) by (rule bookSleep_world)
  with bookAttempt_cases [OF retried.hyps(2) [unfolded w]]
  have w2: "w2 = (n + 1, db, None)" by auto
  then have "fst (snd w2) = db" by simp
  from retried.IH [OF this]
  have ih: "(res = None \<and> (\<exists>n b db'. w' = (n + 1, db', Some b)
            \<and> bookTicketsWithLock fp cfg (env_Clock env n) request db = Inr (b, db')))
         \<or> (res \<noteq> None \<and> fst (snd w') = db \<and> (trace = [] \<and> w' = w2 \<or> snd (snd w') = None))" .
  have none: "snd (snd w') = None" if "trace = [] \<and> w' = w2 \<or> snd (snd w') = None"
    using that w2 by (elim disjE conjE) simp_all
  from ih show ?case
  proof (rule disjE)
    assume "res = None \<and> (\<exists>n b db'. w' = (n + 1, db', Some b)
            \<and> bookTicketsWithLock fp cfg (env_Clock env n) request db = Inr (b, db'))"
    then show ?case by (rule disjI1)
  next
    assume "res \<noteq> None \<and> fst (snd w') = db
      \<and> (trace = [] \<and> w' = w2 \<or> snd (snd w') = None)"
    then have "res \<noteq> None" "fst (snd w') = db" "snd (snd w') = None"
      using none by simp_all
    then show ?case by (intro disjI2 conjI) simp_all
  qed
next
  case (last_attempt i w e w1 err)
  obtain n bk where w: "w = (n, db, bk)" using last_attempt.prems by (cases w) auto
  from bookAttempt_cases [OF last_attempt.hyps(2) [unfolded w]] show ?case by auto
qed

lemma BookTickets_cases:
  assumes "BookTickets fp cfg env request db = ((bo, eo), db')"
  shows "(eo = None \<and> (\<exists>n b. bo = Some b
            \<and> bookTicketsWithLock fp cfg (env_Clock env n) request db = Inr (b, db')))
         \<or> (eo \<noteq> None \<and> bo = None \<and> db' = db)"
proof -
  let ?w = "(0 :: nat, db, None :: Booking option)"
  from WithRetryLoop_run [of "bookAttempt fp cfg env request" "bookSleep env" "env_CtxErr env" 3
      "100 * Millisecond" 0 None ?w]
  obtain trace res w' where
    run: "retryRun (bookAttempt fp cfg env request) (bookSleep env) (env_CtxErr env) 3
            (100 * Millisecond) 0 None ?w trace res w'"
    and plain: "WithRetryLoop (bookAttempt fp cfg env request) (bookSleep env) (env_CtxErr env) 3
            (100 * Millisecond) 0 None ?w = (res, w')"
    by blast
  obtain n' dbw bkw where w': "w' = (n', dbw, bkw)" by (cases w')
  have out: "eo = res" "bo = bkw" "db' = dbw"
    using assms plain w' by (simp_all add: BookTickets_def WithRetry_def)
  from book_retryRun [OF run, of db] show ?thesis
    using w' out by auto
qed

subsection \<open>Exact-match booking\<close>

lemma set_lockedTickets:
  "set (lockedTickets eventID db)
     = {t \<in> set (tickets db). tk_EventID t = eventID \<and> tk_Status t = TicketLocked}"
  by (simp add: lockedTickets_def)

lemma sorted_lockedTickets: "sorted (map tk_SeatNo (lockedTickets eventID db))"
  by (simp add: lockedTickets_def)

lemma distinct_lockedTickets:
  assumes "distinct (map tk_ID (tickets db))"
  shows "distinct (map tk_ID (lockedTickets eventID db))"
proof -
  have d: "distinct (tickets db)" and inj: "inj_on tk_ID (set (tickets db))"
    using assms by (simp_all add: distinct_map)
  have "distinct (lockedTickets eventID db)"
    using d by (simp add: lockedTickets_def)
  moreover have "inj_on tk_ID (set (lockedTickets eventID db))"
    by (rule inj_on_subset [OF inj]) (auto simp: set_lockedTickets)
  ultimately show ?thesis by (simp add: distinct_map)
qed

lemma sorted_take_lowest:
  assumes "sorted (map f xs)" and "a \<in> set (take n xs)" and "b \<in> set xs" and "b \<notin> set (take n xs)"
  shows "f a \<le> f b"
proof -
  have "set xs = set (take n xs) \<union> set (drop n xs)"
    using set_append [of "take n xs" "drop n xs"] by simp
  then have b: "b \<in> set (drop n xs)" using assms(3,4) by simp
  have "sorted (map f (take n xs) @ map f (drop n xs))"
    using assms(1) by (simp flip: map_append)
  then have "\<forall>x \<in> set (map f (take n xs)). \<forall>y \<in> set (map f (drop n xs)). x \<le> y"
    by (simp add: sorted_append)
  then show ?thesis using assms(2) b by simp
qed

text \<open>What a successful transaction returns.\<close>

lemma bookTicketsWithLock_lowest_held:
  assumes ok: "bookTicketsWithLock fp cfg clk request db = Inr (b, db')"
    and pk: "distinct (map tk_ID (tickets db))"
  shows "bk_Status b = BookingPending
   \<and> bk_UserID b = rq_UserID request \<and> bk_EventID b = rq_EventID request
   \<and> bk_Quantity b = rq_Quantity request
   \<and> bk_Quantity b = int (length (bk_TicketIDs b))
   \<and> bk_ExpiresAt b = ck_Expires clk + BookingExpiration cfg
   \<and> distinct (bk_TicketIDs b)
   \<and> (\<exists>event. find (\<lambda>e. ev_ID e = rq_EventID request) (events db) = Some event
          \<and> bk_TotalAmount b = f64_mul fp (ev_Price event) (f64_of_int fp (rq_Quantity request)))
   \<and> (\<exists>rows. bk_TicketIDs b = map tk_ID rows
          \<and> int (length rows) = rq_Quantity request
          \<and> (\<forall>t \<in> set rows. t \<in> set (tickets db) \<and> tk_EventID t = rq_EventID request
                \<and> tk_Status t = TicketLocked)
          \<and> sorted (map tk_SeatNo rows)
          \<and> (\<forall>t \<in> set (tickets db).
                tk_EventID t = rq_EventID request \<and> tk_Status t = TicketLocked \<and> t \<notin> set rows
                \<longrightarrow> (\<forall>r \<in> set rows. tk_SeatNo r \<le> tk_SeatNo t)))"
proof -
  let ?locked = "lockedTickets (rq_EventID request) db"
  let ?rows = "take (nat (rq_Quantity request)) ?locked"
  from bookTicketsWithLock_InrD [OF ok] obtain event where
    ev: "find (\<lambda>e. ev_ID e = rq_EventID request) (events db) = Some event"
    and q: "0 < rq_Quantity request"
    and enough: "rq_Quantity request \<le> int (length ?locked)"
    and b: "b = pendingBooking fp cfg clk request event (map tk_ID ?rows) (bookings_id_seq db + 1)"
    by blast
  have len: "int (length ?rows) = rq_Quantity request" using q enough by simp
  have ids: "bk_TicketIDs b = map tk_ID ?rows" by (simp add: b pendingBooking_def)
  have f1: "bk_Status b = BookingPending" "bk_UserID b = rq_UserID request"
    "bk_EventID b = rq_EventID request" "bk_Quantity b = rq_Quantity request"
    "bk_ExpiresAt b = ck_Expires clk + BookingExpiration cfg"
    "bk_TotalAmount b = f64_mul fp (ev_Price event) (f64_of_int fp (rq_Quantity request))"
    by (simp_all add: b pendingBooking_def)
  have f2: "bk_Quantity b = int (length (bk_TicketIDs b))" using f1(4) ids len by simp
  have "distinct (map tk_ID ?locked)" using pk by (rule distinct_lockedTickets)
  then have "distinct (take (nat (rq_Quantity request)) (map tk_ID ?locked))"
    by (rule distinct_take)
  then have f3: "distinct (bk_TicketIDs b)" by (simp add: ids take_map)
  have r1: "\<forall>t \<in> set ?rows. t \<in> set (tickets db) \<and> tk_EventID t = rq_EventID request
                \<and> tk_Status t = TicketLocked"
  proof
    fix t assume "t \<in> set ?rows"
    then have "t \<in> set ?locked" by (rule in_set_takeD)
    then show "t \<in> set (tickets db) \<and> tk_EventID t = rq_EventID request \<and> tk_Status t = TicketLocked"
      by (simp add: set_lockedTickets)
  qed
  have "sorted (take (nat (rq_Quantity request)) (map tk_SeatNo ?locked))"
    using sorted_lockedTickets by (rule sorted_wrt_take)
  then have r2: "sorted (map tk_SeatNo ?rows)" by (simp add: take_map)
  have r3: "\<forall>t \<in> set (tickets db).
      tk_EventID t = rq_EventID request \<and> tk_Status t = TicketLocked \<and> t \<notin> set ?rows
        \<longrightarrow> (\<forall>r \<in> set ?rows. tk_SeatNo r \<le> tk_SeatNo t)"
  proof (intro ballI impI)
    fix t r
    assume t: "t \<in> set (tickets db)"
      and c: "tk_EventID t = rq_EventID request \<and> tk_Status t = TicketLocked \<and> t \<notin> set ?rows"
      and r: "r \<in> set ?rows"
    have "t \<in> set ?locked" using t c by (simp add: set_lockedTickets)
    with sorted_lockedTickets r show "tk_SeatNo r \<le> tk_SeatNo t"
      using c by (intro sorted_take_lowest [of tk_SeatNo ?locked r "nat (rq_Quantity request)" t]) simp_all
  qed
  have e1: "\<exists>event. find (\<lambda>e. ev_ID e = rq_EventID request) (events db) = Some event
          \<and> bk_TotalAmount b = f64_mul fp (ev_Price event) (f64_of_int fp (rq_Quantity request))"
    using ev f1(6) by blast
  have e2: "\<exists>rows. bk_TicketIDs b = map tk_ID rows
          \<and> int (length rows) = rq_Quantity request
          \<and> (\<forall>t \<in> set rows. t \<in> set (tickets db) \<and> tk_EventID t = rq_EventID request
                \<and> tk_Status t = TicketLocked)
          \<and> sorted (map tk_SeatNo rows)
          \<and> (\<forall>t \<in> set (tickets db).
                tk_EventID t = rq_EventID request \<and> tk_Status t = TicketLocked \<and> t \<notin> set rows
                \<longrightarrow> (\<forall>r \<in> set rows. tk_SeatNo r \<le> tk_SeatNo t))"
    using ids len r1 r2 r3 by (intro exI [of _ ?rows] conjI)
  from f1(1,2,3,4) f2 f1(5) f3 e1 e2 show ?thesis by (intro conjI)
qed

lemma heldDb_pk: "distinct (map tk_ID (tickets heldDb))"
  by (simp add: heldDb_def sampleTicket_def)

text \<open>When the guards, the check of the counter and the constraints of the insert pass,
  the transaction succeeds and returns the pending booking.\<close>

lemma bookTicketsWithLock_succeeds:
  assumes ev: "find (\<lambda>e. ev_ID e = rq_EventID request) (events db) = Some event"
    and ns: "\<not> ev_StartTime event < ck_Validate clk"
    and q0: "0 \<le> rq_Quantity request"
    and enough: "rq_Quantity request \<le> int (length (lockedTickets (rq_EventID request) db))"
    and ids: "ticketIDs = map tk_ID (take (nat (rq_Quantity request))
                (lockedTickets (rq_EventID request) db))"
    and counter: "\<not> list_ex (\<lambda>e. ev_ID e = rq_EventID request
                      \<and> ev_AvailableTickets e + - rq_Quantity request < 0) (events db)"
    and viol: "bookingInsertViolation
                 (pendingBooking fp cfg clk request event ticketIDs (bookings_id_seq db + 1)) db
               = None"
  shows "\<exists>db'. bookTicketsWithLock fp cfg clk request db
            = Inr (pendingBooking fp cfg clk request event ticketIDs (bookings_id_seq db + 1), db')"
proof -
  let ?db1 = "updateTickets (\<lambda>t. tk_ID t \<in> set ticketIDs) TicketReserved (ck_DB clk) db"
  let ?b = "pendingBooking fp cfg clk request event ticketIDs (bookings_id_seq db + 1)"
  obtain db2 where up: "updateAvailableTickets (ck_DB clk) (rq_EventID request)
      (- rq_Quantity request) ?db1 = Inr db2"
    using counter by (simp add: updateAvailableTickets_def)
  have db2: "bookings db2 = bookings db" "bookings_id_seq db2 = bookings_id_seq db"
    "users db2 = users db"
    by (simp_all add: updateAvailableTickets_InrD(1) [OF up])
  have "bookingInsertViolation ?b db2 = None"
    using viol bookingInsertViolation_tables [of db2 db ?b] db2 by simp
  then have ins: "insertBooking ?b db2
      = Inr (db2\<lparr>bookings := bookings db2 @ [?b], bookings_id_seq := bk_ID ?b\<rparr>)"
    by (simp add: insertBooking_def)
  show ?thesis
    unfolding bookTicketsWithLock_writes [OF ev ns q0 enough ids] up
    by (simp add: db2 ins)
qed

lemma queueDb_facts:
  "find (\<lambda>e. ev_ID e = rq_EventID (sampleRequest q)) (events queueDb) = Some sampleEvent"
  "lockedTickets (rq_EventID (sampleRequest q)) queueDb
     = [sampleTicket 2 ''S001'' TicketLocked (11 * Minute),
        sampleTicket 3 ''S002'' TicketLocked (12 * Minute),
        sampleTicket 1 ''S003'' TicketLocked (10 * Minute)]"
  "distinct (map tk_ID (tickets queueDb))"
  "map tk_SeatNo (tickets queueDb) = [''S003'', ''S001'', ''S002'']"
  "map tk_ID (tickets queueDb) = [1, 2, 3]"
  "list_all (\<lambda>t. tk_EventID t = 1 \<and> tk_Status t = TicketLocked) (tickets queueDb)"
  by (simp_all add: lockedTickets_def sampleRequest_def queueDb_def sampleDb_def sampleEvent_def
      sampleTicket_def)

lemma queueBooking_fields:
  "bk_TicketIDs (queueBooking n) = [2, 3]" "bk_TotalAmount (queueBooking n) = 200"
  "bk_ExpiresAt (queueBooking n) = n + 2 + 15 * Minute"
  by (simp_all add: queueBooking_def pendingBooking_def sampleRequest_def sampleClock_def
      sampleConfig_def sampleEvent_def)

text \<open>
  Claim C2. When \<open>BookTickets\<close> succeeds (in a store whose ticket ids are unique), it
  returns the booking of an attempt whose transaction succeeded on the store as it was,
  and with \<open>now\<close> the clock of that attempt: the booking is \<open>pending\<close>, belongs to the
  requesting user and event, has the requested quantity, which is the length of
  \<open>ticket_ids\<close>, has as \<open>total_amount\<close> the \<open>float64\<close> product of \<open>event.price\<close> and the
  quantity converted to \<open>float64\<close>, and has \<open>expires_at = now + booking_ttl\<close>; and its
  \<open>ticket_ids\<close> are the ids, without repetition, of \<open>quantity\<close> tickets that were \<open>locked\<close>
  tickets of that event when the transaction started, listed by ascending \<open>seat_no\<close>,
  such that every other \<open>locked\<close> ticket of the event has a \<open>seat_no\<close> that is not lower
  than any of theirs.
\<close>

theorem BookTickets_exact_match:
  assumes ok: "BookTickets fp cfg env request db = ((booking, None), db')"
    and pk: "distinct (map tk_ID (tickets db))"
  shows "\<exists>b n. booking = Some b
   \<and> bookTicketsWithLock fp cfg (env_Clock env n) request db = Inr (b, db')
   \<and> bk_Status b = BookingPending
   \<and> bk_UserID b = rq_UserID request \<and> bk_EventID b = rq_EventID request
   \<and> bk_Quantity b = rq_Quantity request
   \<and> bk_Quantity b = int (length (bk_TicketIDs b))
   \<and> bk_ExpiresAt b = ck_Expires (env_Clock env n) + BookingExpiration cfg
   \<and> distinct (bk_TicketIDs b)
   \<and> (\<exists>event. find (\<lambda>e. ev_ID e = rq_EventID request) (events db) = Some event
          \<and> bk_TotalAmount b = f64_mul fp (ev_Price event) (f64_of_int fp (rq_Quantity request)))
   \<and> (\<exists>rows. bk_TicketIDs b = map tk_ID rows
          \<and> int (length rows) = rq_Quantity request
          \<and> (\<forall>t \<in> set rows. t \<in> set (tickets db) \<and> tk_EventID t = rq_EventID request
                \<and> tk_Status t = TicketLocked)
          \<and> sorted (map tk_SeatNo rows)
          \<and> (\<forall>t \<in> set (tickets db).
                tk_EventID t = rq_EventID request \<and> tk_Status t = TicketLocked \<and> t \<notin> set rows
                \<longrightarrow> (\<forall>r \<in> set rows. tk_SeatNo r \<le> tk_SeatNo t)))"
proof -
  from BookTickets_cases [OF ok] obtain n b where
    some: "booking = Some b"
    and tx: "bookTicketsWithLock fp cfg (env_Clock env n) request db = Inr (b, db')"
    by blast
  from some tx bookTicketsWithLock_lowest_held [OF tx pk]
  show ?thesis by (intro exI [of _ b] exI [of _ n] conjI) (elim conjE, assumption)+
qed

text \<open>
  On the store with three held seats, stored in the order S003, S001, S002, a booking of
  two seats takes the tickets 2 and 3, which are the seats S001 and S002, and leaves
  S003; its total amount is 200, for a price of 100.
\<close>

theorem BookTickets_exact_match_witness:
  "map tk_SeatNo (tickets queueDb) = [''S003'', ''S001'', ''S002'']
   \<and> map tk_ID (tickets queueDb) = [1, 2, 3]
   \<and> list_all (\<lambda>t. tk_EventID t = 1 \<and> tk_Status t = TicketLocked) (tickets queueDb)
   \<and> distinct (map tk_ID (tickets queueDb))
   \<and> fst (BookTickets exactFloat64 sampleConfig (sampleEnv (500 * Minute)) (sampleRequest 2) queueDb)
       = (Some (queueBooking (500 * Minute)), None)
   \<and> bk_TicketIDs (queueBooking (500 * Minute)) = [2, 3]
   \<and> bk_TotalAmount (queueBooking (500 * Minute)) = 200
   \<and> bk_ExpiresAt (queueBooking (500 * Minute)) = 500 * Minute + 2 + 15 * Minute
   \<and> bk_Status (queueBooking (500 * Minute)) = BookingPending
   \<and> bk_Quantity (queueBooking (500 * Minute))
       = int (length (bk_TicketIDs (queueBooking (500 * Minute))))
   \<and> distinct (bk_TicketIDs (queueBooking (500 * Minute)))"
proof -
  let ?env = "sampleEnv (500 * Minute)" and ?rq = "sampleRequest 2"
  let ?qb = "queueBooking (500 * Minute)"
  have ns: "\<not> ev_StartTime sampleEvent < ck_Validate (env_Clock ?env 0)"
    by (simp add: sampleEvent_def sampleEnv_def sampleClock_def Minute_def)
  have q0: "0 \<le> rq_Quantity ?rq"
    and enough: "rq_Quantity ?rq \<le> int (length (lockedTickets (rq_EventID ?rq) queueDb))"
    by (simp_all add: queueDb_facts(2)) (simp_all add: sampleRequest_def)
  have ids: "[2, 3] = map tk_ID (take (nat (rq_Quantity ?rq))
      (lockedTickets (rq_EventID ?rq) queueDb))"
    by (simp add: queueDb_facts(2)) (simp add: sampleRequest_def sampleTicket_def)
  have counter: "\<not> list_ex (\<lambda>e. ev_ID e = rq_EventID ?rq
      \<and> ev_AvailableTickets e + - rq_Quantity ?rq < 0) (events queueDb)"
    by (simp add: queueDb_def sampleDb_def sampleEvent_def sampleRequest_def)
  have qb: "pendingBooking exactFloat64 sampleConfig (env_Clock ?env 0) ?rq sampleEvent [2, 3]
      (bookings_id_seq queueDb + 1) = ?qb"
    by (simp add: queueBooking_def sampleEnv_def queueDb_def sampleDb_def)
  have viol: "bookingInsertViolation
      (pendingBooking exactFloat64 sampleConfig (env_Clock ?env 0) ?rq sampleEvent [2, 3]
         (bookings_id_seq queueDb + 1)) queueDb = None"
    unfolding qb
    by (simp add: bookingInsertViolation_def queueBooking_def pendingBooking_def queueDb_def
        sampleDb_def sampleRequest_def sampleEvent_def sampleUser_def)
  from bookTicketsWithLock_succeeds [OF queueDb_facts(1) ns q0 enough ids counter viol]
  obtain db' where "bookTicketsWithLock exactFloat64 sampleConfig (env_Clock ?env 0) ?rq queueDb
      = Inr (?qb, db')"
    unfolding qb ..
  then have booked: "BookTickets exactFloat64 sampleConfig ?env ?rq queueDb
      = ((Some ?qb, None), db')"
    by (rule BookTickets_ok)
  from BookTickets_exact_match [OF booked queueDb_facts(3)]
  obtain b where b: "Some ?qb = Some b"
    and p: "bk_Status b = BookingPending" "bk_Quantity b = int (length (bk_TicketIDs b))"
      "distinct (bk_TicketIDs b)"
    by blast
  from b have "b = ?qb" by simp
  with p have q: "bk_Status ?qb = BookingPending"
    "bk_Quantity ?qb = int (length (bk_TicketIDs ?qb))"
    "distinct (bk_TicketIDs ?qb)"
    by simp_all
  have res: "fst (BookTickets exactFloat64 sampleConfig ?env ?rq queueDb) = (Some ?qb, None)"
    by (simp add: booked)
  show ?thesis
    using queueDb_facts(4,5,6,3) res queueBooking_fields [of "500 * Minute"] q
    by (intro conjI)
qed

subsection \<open>Consistency is preserved: updates of tickets\<close>

lemma updateTickets_keys:
  "map tk_ID (tickets (updateTickets cond status dbNow db)) = map tk_ID (tickets db)"
  "map (\<lambda>t. (tk_EventID t, tk_SeatNo t)) (tickets (updateTickets cond status dbNow db))
     = map (\<lambda>t. (tk_EventID t, tk_SeatNo t)) (tickets db)"
  by (simp_all add: tickets_updateTickets o_def if_distrib cong: if_cong)

lemma schemaConstraints_alt:
  "schemaConstraints db \<longleftrightarrow>
     distinct (map tk_ID (tickets db))
     \<and> distinct (map (\<lambda>t. (tk_EventID t, tk_SeatNo t)) (tickets db))
     \<and> distinct (map bk_ID (bookings db))
     \<and> (\<forall>i \<in> set (map tk_ID (tickets db)). 0 \<le> i \<and> is_go_int i)"
  by (simp add: schemaConstraints_def)

lemma schemaConstraints_keys:
  assumes "map tk_ID (tickets db') = map tk_ID (tickets db)"
    and "map (\<lambda>t. (tk_EventID t, tk_SeatNo t)) (tickets db')
           = map (\<lambda>t. (tk_EventID t, tk_SeatNo t)) (tickets db)"
    and "map bk_ID (bookings db') = map bk_ID (bookings db)"
  shows "schemaConstraints db' = schemaConstraints db"
  unfolding schemaConstraints_alt assms ..

lemma schemaConstraints_updateTickets:
  "schemaConstraints (updateTickets cond status dbNow db) = schemaConstraints db"
  by (rule schemaConstraints_keys) (simp_all add: updateTickets_keys)

lemma updateTickets_untouched:
  assumes "t \<in> set (tickets db)" and "\<not> cond t"
  shows "t \<in> set (tickets (updateTickets cond status dbNow db))"
proof -
  have "(\<lambda>t. if cond t then t\<lparr>tk_Status := status, tk_UpdatedAt := dbNow\<rparr> else t) t
          \<in> set (tickets (updateTickets cond status dbNow db))"
    unfolding tickets_updateTickets set_map using assms(1) by (rule imageI)
  then show ?thesis using assms(2) by simp
qed

lemma openTickets_updateTickets:
  "openTickets eventID (updateTickets cond status dbNow db)
     = length (filter (\<lambda>t. tk_EventID t = eventID
                         \<and> (if cond t then isOpen status else isOpen (tk_Status t)))
                (tickets db))"
proof -
  have "(\<lambda>t. tk_EventID t = eventID \<and> isOpen (tk_Status t))
          \<circ> (\<lambda>t. if cond t then t\<lparr>tk_Status := status, tk_UpdatedAt := dbNow\<rparr> else t)
        = (\<lambda>t. tk_EventID t = eventID \<and> (if cond t then isOpen status else isOpen (tk_Status t)))"
    by (rule ext) simp
  then show ?thesis
    by (simp add: openTickets_def tickets_updateTickets filter_map)
qed

lemma openTickets_updateTickets_same:
  assumes "\<forall>t \<in> set (tickets db). cond t \<longrightarrow> (isOpen (tk_Status t) \<longleftrightarrow> isOpen status)"
  shows "openTickets eventID (updateTickets cond status dbNow db) = openTickets eventID db"
proof -
  have "filter (\<lambda>t. tk_EventID t = eventID
                  \<and> (if cond t then isOpen status else isOpen (tk_Status t))) (tickets db)
        = filter (\<lambda>t. tk_EventID t = eventID \<and> isOpen (tk_Status t)) (tickets db)"
    using assms by (intro filter_cong refl) simp
  then show ?thesis unfolding openTickets_updateTickets by (simp add: openTickets_def)
qed

lemma bookingTicketsOK_updateTickets:
  assumes ok: "bookingTicketsOK db b"
    and closed: "\<forall>t \<in> set (tickets db). cond t \<and> \<not> isOpen (tk_Status t) \<longrightarrow> \<not> isOpen status"
  shows "bookingTicketsOK (updateTickets cond status dbNow db) b"
proof -
  let ?db' = "updateTickets cond status dbNow db"
  have "\<exists>t \<in> set (tickets ?db'). tk_ID t = i \<and> tk_EventID t = bk_EventID b \<and> \<not> isOpen (tk_Status t)"
    if "i \<in> set (bk_TicketIDs b)" for i
  proof -
    from ok that obtain t where t: "t \<in> set (tickets db)" "tk_ID t = i"
      "tk_EventID t = bk_EventID b" "\<not> isOpen (tk_Status t)"
      unfolding bookingTicketsOK_def by blast
    show ?thesis
    proof (cases "cond t")
      case True
      then have "\<not> isOpen status" using closed t(1,4) by blast
      moreover have "t\<lparr>tk_Status := status, tk_UpdatedAt := dbNow\<rparr> \<in> set (tickets ?db')"
        using t(1) True by (rule updateTickets_touched)
      ultimately show ?thesis using t(2,3)
        by (intro bexI [of _ "t\<lparr>tk_Status := status, tk_UpdatedAt := dbNow\<rparr>"]) simp_all
    next
      case False
      then have "t \<in> set (tickets ?db')" using t(1) by (intro updateTickets_untouched)
      then show ?thesis using t(2,3,4) by (intro bexI [of _ t]) simp_all
    qed
  qed
  then show ?thesis using ok unfolding bookingTicketsOK_def by blast
qed

lemma consistent_updateTickets_same:
  assumes c: "consistent db"
    and same: "\<forall>t \<in> set (tickets db). cond t \<longrightarrow> (isOpen (tk_Status t) \<longleftrightarrow> isOpen status)"
  shows "consistent (updateTickets cond status dbNow db)"
proof -
  let ?db' = "updateTickets cond status dbNow db"
  have s: "schemaConstraints ?db'" using c by (simp add: consistent_def schemaConstraints_updateTickets)
  have n: "counterInvariant ?db'"
    using c by (simp add: consistent_def counterInvariant_def openTickets_updateTickets_same [OF same])
  have closed: "\<forall>t \<in> set (tickets db). cond t \<and> \<not> isOpen (tk_Status t) \<longrightarrow> \<not> isOpen status"
    using same by blast
  have "bookingTicketsOK ?db' b" if "bookingTicketsOK db b" for b
    using that closed by (rule bookingTicketsOK_updateTickets)
  then have b: "bookingsConsistent ?db'"
    using c unfolding consistent_def bookingsConsistent_def by simp
  from s n b show ?thesis by (simp add: consistent_def)
qed

lemma consistent_UnlockSeat:
  "consistent db \<Longrightarrow> consistent (snd (UnlockSeat dbNow eventID seatNo db))"
  unfolding UnlockSeat_def snd_conv
  by (rule consistent_updateTickets_same) (simp_all add: isOpen_def)

lemma consistent_CleanupExpiredLocks:
  "consistent db \<Longrightarrow> consistent (snd (CleanupExpiredLocks fp cfg dbNow db))"
  unfolding CleanupExpiredLocks_def snd_conv
  by (rule consistent_updateTickets_same) (simp_all add: isOpen_def lockExpired_def)

lemma unique_seat:
  assumes "distinct (map (\<lambda>t. (tk_EventID t, tk_SeatNo t)) ts)"
    and "t \<in> set ts" and "t' \<in> set ts"
    and "seatMatches eventID seatNo t" and "seatMatches eventID seatNo t'"
  shows "t' = t"
proof -
  have "inj_on (\<lambda>t. (tk_EventID t, tk_SeatNo t)) (set ts)"
    using assms(1) by (simp add: distinct_map)
  moreover have "(tk_EventID t', tk_SeatNo t') = (tk_EventID t, tk_SeatNo t)"
    using assms(4,5) by (simp add: seatMatches_def)
  ultimately show ?thesis using assms(2,3) by (auto dest: inj_onD)
qed

lemma consistent_LockSeat:
  assumes c: "consistent db"
  shows "consistent (snd (LockSeat dbNow eventID seatNo db))"
proof (cases "lockSeatTx dbNow eventID seatNo db")
  case (Inl e)
  then show ?thesis using c by (simp add: LockSeat_def WithTransaction_def)
next
  case (Inr p)
  obtain t where f: "find (seatMatches eventID seatNo) (tickets db) = Some t"
    using Inr by (cases "find (seatMatches eventID seatNo) (tickets db)")
      (simp_all add: lockSeatTx_def)
  have av: "tk_Status t = TicketAvailable"
  proof (rule ccontr)
    assume "tk_Status t \<noteq> TicketAvailable"
    then have "ticketStatusText (tk_Status t) \<noteq> ''available''"
      by (cases "tk_Status t") simp_all
    then show False using Inr f by (simp add: lockSeatTx_def Let_def)
  qed
  have p: "p = ((), updateTickets (seatMatches eventID seatNo) TicketLocked dbNow db)"
    using Inr f av by (simp add: lockSeatTx_def Let_def split: if_splits)
  have t: "t \<in> set (tickets db)" "seatMatches eventID seatNo t"
    using f by (auto simp: find_Some_iff)
  have u: "distinct (map (\<lambda>t. (tk_EventID t, tk_SeatNo t)) (tickets db))"
    using c by (simp add: consistent_def schemaConstraints_def)
  have "\<forall>t' \<in> set (tickets db). seatMatches eventID seatNo t'
          \<longrightarrow> (isOpen (tk_Status t') \<longleftrightarrow> isOpen TicketLocked)"
  proof (intro ballI impI)
    fix t' assume "t' \<in> set (tickets db)" and "seatMatches eventID seatNo t'"
    then have "t' = t" using unique_seat [OF u t(1) _ t(2)] by blast
    then show "isOpen (tk_Status t') \<longleftrightarrow> isOpen TicketLocked" using av by (simp add: isOpen_def)
  qed
  with c have "consistent (updateTickets (seatMatches eventID seatNo) TicketLocked dbNow db)"
    by (rule consistent_updateTickets_same)
  then show ?thesis using Inr p by (simp add: LockSeat_def WithTransaction_def)
qed

subsection \<open>Consistency is preserved: confirming\<close>

lemma ticket_by_id:
  assumes "distinct (map tk_ID ts)" and "t \<in> set ts" and "t' \<in> set ts" and "tk_ID t' = tk_ID t"
  shows "t' = t"
proof -
  have "inj_on tk_ID (set ts)" using assms(1) by (simp add: distinct_map)
  then show ?thesis using assms(2,3,4) by (auto dest: inj_onD)
qed

lemma booking_by_id:
  assumes "distinct (map bk_ID bs)" and "b \<in> set bs" and "b' \<in> set bs" and "bk_ID b' = bk_ID b"
  shows "b' = b"
proof -
  have "inj_on bk_ID (set bs)" using assms(1) by (simp add: distinct_map)
  then show ?thesis using assms(2,3,4) by (auto dest: inj_onD)
qed

text \<open>In a consistent store the tickets of a live booking are closed tickets of its event.\<close>

lemma booking_tickets_closed:
  assumes c: "consistent db" and b: "b \<in> set (bookings db)" "bk_Status b \<noteq> BookingCancelled"
    and t: "t \<in> set (tickets db)" "tk_ID t \<in> set (bk_TicketIDs b)"
  shows "tk_EventID t = bk_EventID b \<and> \<not> isOpen (tk_Status t)"
proof -
  have "bookingTicketsOK db b" using c b by (simp add: consistent_def bookingsConsistent_def)
  then obtain t0 where t0: "t0 \<in> set (tickets db)" "tk_ID t0 = tk_ID t"
    "tk_EventID t0 = bk_EventID b" "\<not> isOpen (tk_Status t0)"
    using t(2) unfolding bookingTicketsOK_def by blast
  have "distinct (map tk_ID (tickets db))" using c by (simp add: consistent_def schemaConstraints_def)
  then have "t0 = t" using t(1) t0(1,2) by (rule ticket_by_id)
  then show ?thesis using t0(3,4) by simp
qed

lemma booking_ids_go_ints:
  assumes c: "consistent db" and b: "b \<in> set (bookings db)" "bk_Status b \<noteq> BookingCancelled"
  shows "\<forall>i \<in> set (bk_TicketIDs b). 0 \<le> i \<and> is_go_int i"
proof
  fix i assume "i \<in> set (bk_TicketIDs b)"
  moreover have "bookingTicketsOK db b" using c b by (simp add: consistent_def bookingsConsistent_def)
  ultimately obtain t where "t \<in> set (tickets db)" "tk_ID t = i"
    unfolding bookingTicketsOK_def by blast
  then show "0 \<le> i \<and> is_go_int i"
    using c by (auto simp: consistent_def schemaConstraints_def)
qed

lemma bookingTicketsOK_cong:
  assumes "tickets db' = tickets db" and "bk_TicketIDs b' = bk_TicketIDs b"
    and "bk_Quantity b' = bk_Quantity b" and "bk_EventID b' = bk_EventID b"
  shows "bookingTicketsOK db' b' = bookingTicketsOK db b"
  by (simp add: bookingTicketsOK_def assms)

lemma updateBookingStatus_tables [simp]:
  "tickets (updateBookingStatus i s n db) = tickets db"
  "events (updateBookingStatus i s n db) = events db"
  "users (updateBookingStatus i s n db) = users db"
  "map bk_ID (bookings (updateBookingStatus i s n db)) = map bk_ID (bookings db)"
  by (simp_all add: updateBookingStatus_def o_def if_distrib cong: if_cong)

lemma in_updateBookingStatus:
  assumes "b' \<in> set (bookings (updateBookingStatus i s n db))"
  obtains b where "b \<in> set (bookings db)" and "bk_ID b \<noteq> i" and "b' = b"
  | b where "b \<in> set (bookings db)" and "bk_ID b = i"
      and "b' = b\<lparr>bk_Status := s, bk_UpdatedAt := n\<rparr>"
proof -
  have "bookings (updateBookingStatus i s n db)
      = map (\<lambda>b. if bk_ID b = i then b\<lparr>bk_Status := s, bk_UpdatedAt := n\<rparr> else b) (bookings db)"
    by (simp add: updateBookingStatus_def)
  with assms have "b' \<in> (\<lambda>b. if bk_ID b = i then b\<lparr>bk_Status := s, bk_UpdatedAt := n\<rparr> else b)
      ` set (bookings db)"
    by (simp only: set_map)
  then obtain b where b': "b' = (if bk_ID b = i then b\<lparr>bk_Status := s, bk_UpdatedAt := n\<rparr> else b)"
    and b: "b \<in> set (bookings db)"
    by (rule imageE)
  show ?thesis
  proof (cases "bk_ID b = i")
    case True
    then show ?thesis using b b' that(2) by simp
  next
    case False
    then show ?thesis using b b' that(1) by simp
  qed
qed

text \<open>
  Changing the status of a live booking to another live status, or the status of any
  booking to \<open>cancelled\<close> once its tickets no longer matter, keeps the bookings consistent
  as long as the other live bookings keep their tickets.
\<close>

lemma consistent_updateBookingStatus_live:
  assumes c: "consistent db"
    and f: "find (\<lambda>b. bk_ID b = i) (bookings db) = Some b"
    and live: "bk_Status b \<noteq> BookingCancelled"
  shows "consistent (updateBookingStatus i s n db)"
proof -
  let ?db' = "updateBookingStatus i s n db"
  have bin: "b \<in> set (bookings db)" "bk_ID b = i" using f by (auto simp: find_Some_iff)
  have dk: "distinct (map bk_ID (bookings db))" using c by (simp add: consistent_def schemaConstraints_def)
  have sc: "schemaConstraints ?db'"
    using c schemaConstraints_keys [of ?db' db] by (simp add: consistent_def)
  have ci: "counterInvariant ?db'"
    using c by (simp add: consistent_def counterInvariant_def openTickets_def)
  have old: "\<exists>b0 \<in> set (bookings db). bk_ID b0 = bk_ID b' \<and> bk_TicketIDs b0 = bk_TicketIDs b'
      \<and> bk_Quantity b0 = bk_Quantity b' \<and> bk_EventID b0 = bk_EventID b'
      \<and> bk_Status b0 \<noteq> BookingCancelled"
    if "b' \<in> set (bookings ?db')" "bk_Status b' \<noteq> BookingCancelled" for b'
    using that(1)
  proof (cases rule: in_updateBookingStatus)
    case (1 b0)
    then show ?thesis using that(2) by (intro bexI [of _ b0]) simp_all
  next
    case (2 b0)
    then have "b0 = b" using booking_by_id [OF dk bin(1)] bin(2) by simp
    then show ?thesis using 2 live bin(1) by (intro bexI [of _ b]) simp_all
  qed
  have bc: "bookingsConsistent ?db'"
    unfolding bookingsConsistent_def
  proof (intro conjI ballI impI)
    fix b' assume "b' \<in> set (bookings ?db')" and "bk_Status b' \<noteq> BookingCancelled"
    from old [OF this] obtain b0 where b0: "b0 \<in> set (bookings db)"
      "bk_TicketIDs b0 = bk_TicketIDs b'" "bk_Quantity b0 = bk_Quantity b'"
      "bk_EventID b0 = bk_EventID b'" "bk_Status b0 \<noteq> BookingCancelled"
      by blast
    then have "bookingTicketsOK db b0" using c by (simp add: consistent_def bookingsConsistent_def)
    then show "bookingTicketsOK ?db' b'"
      using bookingTicketsOK_cong [of ?db' db b' b0] b0(2,3,4) by simp
  next
    fix b1 b2
    assume m: "b1 \<in> set (bookings ?db')" "b2 \<in> set (bookings ?db')"
      and h: "bk_ID b1 \<noteq> bk_ID b2 \<and> bk_Status b1 \<noteq> BookingCancelled
              \<and> bk_Status b2 \<noteq> BookingCancelled"
    from old [OF m(1)] h obtain a1 where a1: "a1 \<in> set (bookings db)" "bk_ID a1 = bk_ID b1"
      "bk_TicketIDs a1 = bk_TicketIDs b1" "bk_Status a1 \<noteq> BookingCancelled"
      by blast
    from old [OF m(2)] h obtain a2 where a2: "a2 \<in> set (bookings db)" "bk_ID a2 = bk_ID b2"
      "bk_TicketIDs a2 = bk_TicketIDs b2" "bk_Status a2 \<noteq> BookingCancelled"
      by blast
    have "set (bk_TicketIDs a1) \<inter> set (bk_TicketIDs a2) = {}"
      using c a1 a2 h unfolding consistent_def bookingsConsistent_def by (elim conjE) metis
    then show "set (bk_TicketIDs b1) \<inter> set (bk_TicketIDs b2) = {}" using a1(3) a2(3) by simp
  qed
  from sc ci bc show ?thesis by (simp add: consistent_def)
qed

lemma confirmBookingTx_InrD:
  assumes "confirmBookingTx now dbNow bookingID db = Inr p"
  shows "\<exists>booking. find (\<lambda>b. bk_ID b = bookingID) (bookings db) = Some booking
           \<and> bk_Status booking = BookingPending \<and> \<not> bk_ExpiresAt booking < now"
proof -
  obtain booking where f: "find (\<lambda>b. bk_ID b = bookingID) (bookings db) = Some booking"
    using assms by (cases "find (\<lambda>b. bk_ID b = bookingID) (bookings db)")
      (simp_all add: confirmBookingTx_def)
  have p: "bk_Status booking = BookingPending"
    using assms confirmBookingTx_rejected(1) [OF f] by (cases "bk_Status booking = BookingPending") auto
  have "\<not> bk_ExpiresAt booking < now"
    using assms confirmBookingTx_rejected(2) [OF f p] by (cases "bk_ExpiresAt booking < now") auto
  with f p show ?thesis by blast
qed

lemma consistent_ConfirmBooking:
  assumes c: "consistent db"
  shows "consistent (snd (ConfirmBooking now dbNow bookingID db))"
proof (cases "confirmBookingTx now dbNow bookingID db")
  case (Inl e)
  then show ?thesis using c by (simp add: ConfirmBooking_def WithTransaction_def)
next
  case (Inr p)
  from confirmBookingTx_InrD [OF Inr] obtain booking where
    f: "find (\<lambda>b. bk_ID b = bookingID) (bookings db) = Some booking"
    and pend: "bk_Status booking = BookingPending" and live: "\<not> bk_ExpiresAt booking < now"
    by blast
  have bin: "booking \<in> set (bookings db)" using f by (auto simp: find_Some_iff)
  have nc: "bk_Status booking \<noteq> BookingCancelled" using pend by simp
  have ids: "\<forall>i \<in> set (bk_TicketIDs booking). 0 \<le> i \<and> is_go_int i"
    using c bin nc by (rule booking_ids_go_ints)
  let ?cond = "\<lambda>t. tk_ID t \<in> set (bk_TicketIDs booking) \<and> tk_Status t = TicketReserved"
  let ?db1 = "updateTickets ?cond TicketSold dbNow db"
  have p: "p = ((), updateBookingStatus bookingID BookingConfirmed dbNow ?db1)"
    using Inr unfolding confirmBookingTx_pending [OF f pend live ids]
    by (simp split: if_splits)
  have c1: "consistent ?db1"
    using c by (rule consistent_updateTickets_same) (simp add: isOpen_def)
  have f1: "find (\<lambda>b. bk_ID b = bookingID) (bookings ?db1) = Some booking" using f by simp
  have "consistent (updateBookingStatus bookingID BookingConfirmed dbNow ?db1)"
    using c1 f1 nc by (rule consistent_updateBookingStatus_live)
  then show ?thesis using Inr p by (simp add: ConfirmBooking_def WithTransaction_def)
qed

subsection \<open>Counting the tickets of a booking\<close>

lemma length_filter_ids:
  assumes pk: "distinct (map tk_ID ts)" and d: "distinct ids"
    and present: "\<forall>i \<in> set ids. \<exists>t \<in> set ts. tk_ID t = i"
  shows "length (filter (\<lambda>t. tk_ID t \<in> set ids) ts) = length ids"
proof -
  let ?S = "{t. tk_ID t \<in> set ids} \<inter> set ts"
  have dts: "distinct ts" and inj: "inj_on tk_ID (set ts)" using pk by (simp_all add: distinct_map)
  have "length (filter (\<lambda>t. tk_ID t \<in> set ids) ts) = card ?S"
    using dts by (rule distinct_length_filter)
  also have "card ?S = card (tk_ID ` ?S)"
    by (rule card_image [symmetric]) (rule inj_on_subset [OF inj], blast)
  also have "tk_ID ` ?S = set ids"
  proof (intro set_eqI iffI)
    fix i assume "i \<in> tk_ID ` ?S"
    then show "i \<in> set ids" by (auto simp: image_iff)
  next
    fix i assume i: "i \<in> set ids"
    with present obtain t where t: "t \<in> set ts" "tk_ID t = i" by blast
    then have "t \<in> ?S" using i by simp
    then show "i \<in> tk_ID ` ?S" using t(2) by (intro image_eqI [of _ _ t]) simp_all
  qed
  also have "card (set ids) = length ids" using d by (rule distinct_card)
  finally show ?thesis .
qed

lemma length_filter_disj:
  assumes "\<forall>x \<in> set xs. \<not> (A x \<and> B x)"
  shows "length (filter (\<lambda>x. A x \<or> B x) xs) = length (filter A xs) + length (filter B xs)"
  using assms by (induction xs) auto

lemma length_filter_event_ids:
  assumes pk: "distinct (map tk_ID ts)" and d: "distinct ids"
    and rows: "\<forall>i \<in> set ids. \<exists>t \<in> set ts. tk_ID t = i \<and> tk_EventID t = eventID"
  shows "length (filter (\<lambda>t. tk_EventID t = e \<and> tk_ID t \<in> set ids) ts)
           = (if e = eventID then length ids else 0)"
proof -
  have ev: "tk_EventID t = eventID" if "t \<in> set ts" "tk_ID t \<in> set ids" for t
  proof -
    from rows that(2) obtain t0 where "t0 \<in> set ts" "tk_ID t0 = tk_ID t" "tk_EventID t0 = eventID"
      by blast
    moreover from this have "t0 = t" using ticket_by_id [OF pk that(1)] by blast
    ultimately show ?thesis by simp
  qed
  show ?thesis
  proof (cases "e = eventID")
    case True
    have "filter (\<lambda>t. tk_EventID t = e \<and> tk_ID t \<in> set ids) ts
            = filter (\<lambda>t. tk_ID t \<in> set ids) ts"
      using ev True by (intro filter_cong refl) blast
    moreover have "\<forall>i \<in> set ids. \<exists>t \<in> set ts. tk_ID t = i" using rows by blast
    ultimately show ?thesis using True length_filter_ids [OF pk d] by simp
  next
    case False
    have "filter (\<lambda>t. tk_EventID t = e \<and> tk_ID t \<in> set ids) ts = filter (\<lambda>t. False) ts"
      using ev False by (intro filter_cong refl) blast
    then show ?thesis using False by simp
  qed
qed

lemma openTickets_reopen:
  assumes pk: "distinct (map tk_ID (tickets db))" and d: "distinct ids"
    and rows: "\<forall>i \<in> set ids. \<exists>t \<in> set (tickets db).
                 tk_ID t = i \<and> tk_EventID t = eventID \<and> \<not> isOpen (tk_Status t)"
    and s: "isOpen status"
  shows "openTickets e (updateTickets (\<lambda>t. tk_ID t \<in> set ids) status dbNow db)
           = openTickets e db + (if e = eventID then length ids else 0)"
proof -
  let ?ts = "tickets db"
  let ?A = "\<lambda>t. tk_EventID t = e \<and> isOpen (tk_Status t)"
  let ?B = "\<lambda>t. tk_EventID t = e \<and> tk_ID t \<in> set ids"
  have closed: "\<not> isOpen (tk_Status t)" if "t \<in> set ?ts" "tk_ID t \<in> set ids" for t
  proof -
    from rows that(2) obtain t0 where "t0 \<in> set ?ts" "tk_ID t0 = tk_ID t" "\<not> isOpen (tk_Status t0)"
      by blast
    moreover from this have "t0 = t" using ticket_by_id [OF pk that(1)] by blast
    ultimately show ?thesis by simp
  qed
  have "filter (\<lambda>t. tk_EventID t = e
                  \<and> (if tk_ID t \<in> set ids then isOpen status else isOpen (tk_Status t))) ?ts
        = filter (\<lambda>t. ?A t \<or> ?B t) ?ts"
    using s closed by (intro filter_cong refl) auto
  moreover have "\<forall>t \<in> set ?ts. \<not> (?A t \<and> ?B t)" using closed by blast
  then have "length (filter (\<lambda>t. ?A t \<or> ?B t) ?ts)
               = length (filter ?A ?ts) + length (filter ?B ?ts)"
    by (rule length_filter_disj)
  moreover have "\<forall>i \<in> set ids. \<exists>t \<in> set ?ts. tk_ID t = i \<and> tk_EventID t = eventID"
    using rows by blast
  then have "length (filter ?B ?ts) = (if e = eventID then length ids else 0)"
    by (rule length_filter_event_ids [OF pk d])
  ultimately show ?thesis
    unfolding openTickets_updateTickets by (simp add: openTickets_def)
qed

lemma openTickets_close:
  assumes pk: "distinct (map tk_ID (tickets db))" and d: "distinct ids"
    and rows: "\<forall>i \<in> set ids. \<exists>t \<in> set (tickets db).
                 tk_ID t = i \<and> tk_EventID t = eventID \<and> isOpen (tk_Status t)"
    and s: "\<not> isOpen status"
  shows "openTickets e (updateTickets (\<lambda>t. tk_ID t \<in> set ids) status dbNow db)
           + (if e = eventID then length ids else 0) = openTickets e db"
proof -
  let ?ts = "tickets db"
  let ?A = "\<lambda>t. tk_EventID t = e \<and> (if tk_ID t \<in> set ids then isOpen status else isOpen (tk_Status t))"
  let ?B = "\<lambda>t. tk_EventID t = e \<and> tk_ID t \<in> set ids"
  have opn: "isOpen (tk_Status t)" if "t \<in> set ?ts" "tk_ID t \<in> set ids" for t
  proof -
    from rows that(2) obtain t0 where "t0 \<in> set ?ts" "tk_ID t0 = tk_ID t" "isOpen (tk_Status t0)"
      by blast
    moreover from this have "t0 = t" using ticket_by_id [OF pk that(1)] by blast
    ultimately show ?thesis by simp
  qed
  have "filter (\<lambda>t. tk_EventID t = e \<and> isOpen (tk_Status t)) ?ts
        = filter (\<lambda>t. ?A t \<or> ?B t) ?ts"
    using s opn by (intro filter_cong refl) auto
  moreover have "\<forall>t \<in> set ?ts. \<not> (?A t \<and> ?B t)" using s by simp
  then have "length (filter (\<lambda>t. ?A t \<or> ?B t) ?ts)
               = length (filter ?A ?ts) + length (filter ?B ?ts)"
    by (rule length_filter_disj)
  moreover have "\<forall>i \<in> set ids. \<exists>t \<in> set ?ts. tk_ID t = i \<and> tk_EventID t = eventID"
    using rows by blast
  then have "length (filter ?B ?ts) = (if e = eventID then length ids else 0)"
    by (rule length_filter_event_ids [OF pk d])
  ultimately show ?thesis
    unfolding openTickets_updateTickets by (simp add: openTickets_def)
qed

lemma in_updateAvailableTickets:
  assumes up: "updateAvailableTickets dbNow eventID delta db = Inr db2"
    and e': "e' \<in> set (events db2)"
  shows "\<exists>e \<in> set (events db). ev_ID e' = ev_ID e
           \<and> ev_AvailableTickets e'
               = ev_AvailableTickets e + (if ev_ID e = eventID then delta else 0)"
proof -
  have "events db2 = map (\<lambda>e. if ev_ID e = eventID
      then e\<lparr>ev_AvailableTickets := ev_AvailableTickets e + delta, ev_UpdatedAt := dbNow\<rparr>
      else e) (events db)"
    by (simp add: updateAvailableTickets_InrD(1) [OF up])
  with e' have "e' \<in> (\<lambda>e. if ev_ID e = eventID
      then e\<lparr>ev_AvailableTickets := ev_AvailableTickets e + delta, ev_UpdatedAt := dbNow\<rparr>
      else e) ` set (events db)"
    by (simp only: set_map)
  then obtain e where "e' = (if ev_ID e = eventID
      then e\<lparr>ev_AvailableTickets := ev_AvailableTickets e + delta, ev_UpdatedAt := dbNow\<rparr>
      else e)" and "e \<in> set (events db)"
    by (rule imageE)
  then show ?thesis by (intro bexI [of _ e]) (simp_all split: if_splits)
qed

lemma updateAvailableTickets_tables:
  assumes "updateAvailableTickets dbNow eventID delta db = Inr db2"
  shows "tickets db2 = tickets db" "bookings db2 = bookings db" "users db2 = users db"
    "bookings_id_seq db2 = bookings_id_seq db"
  by (simp_all add: updateAvailableTickets_InrD(1) [OF assms])

subsection \<open>Consistency is preserved: booking\<close>

lemma bookings_disjoint:
  assumes "consistent db" and "b1 \<in> set (bookings db)" and "b2 \<in> set (bookings db)"
    and "bk_ID b1 \<noteq> bk_ID b2" and "bk_Status b1 \<noteq> BookingCancelled"
    and "bk_Status b2 \<noteq> BookingCancelled"
  shows "set (bk_TicketIDs b1) \<inter> set (bk_TicketIDs b2) = {}"
proof -
  have "\<forall>b \<in> set (bookings db). \<forall>b' \<in> set (bookings db).
           bk_ID b \<noteq> bk_ID b' \<and> bk_Status b \<noteq> BookingCancelled
             \<and> bk_Status b' \<noteq> BookingCancelled
           \<longrightarrow> set (bk_TicketIDs b) \<inter> set (bk_TicketIDs b') = {}"
    using assms(1) by (simp add: consistent_def bookingsConsistent_def)
  from this [rule_format, OF assms(2,3)] assms(4,5,6) show ?thesis by simp
qed

lemma consistent_bookTicketsWithLock:
  assumes c: "consistent db"
    and ok: "bookTicketsWithLock fp cfg clk request db = Inr (b, db')"
  shows "consistent db'"
proof -
  define ids where "ids = map tk_ID (take (nat (rq_Quantity request))
      (lockedTickets (rq_EventID request) db))"
  let ?locked = "lockedTickets (rq_EventID request) db"
  let ?rows = "take (nat (rq_Quantity request)) ?locked"
  let ?db1 = "updateTickets (\<lambda>t. tk_ID t \<in> set ids) TicketReserved (ck_DB clk) db"
  let ?db2 = "db'\<lparr>bookings := bookings db, bookings_id_seq := bookings_id_seq db\<rparr>"
  from bookTicketsWithLock_InrD [OF ok] obtain event where
    q: "0 < rq_Quantity request"
    and enough: "rq_Quantity request \<le> int (length ?locked)"
    and b: "b = pendingBooking fp cfg clk request event ids (bookings_id_seq db + 1)"
    and up: "updateAvailableTickets (ck_DB clk) (rq_EventID request) (- rq_Quantity request) ?db1
               = Inr ?db2"
    and bs: "bookings db' = bookings db @ [b]"
    and viol: "bookingInsertViolation b db = None"
    unfolding ids_def by blast
  have bf: "bk_TicketIDs b = ids" "bk_Quantity b = rq_Quantity request"
    "bk_EventID b = rq_EventID request"
    by (simp_all add: b pendingBooking_def)
  have pk: "distinct (map tk_ID (tickets db))"
    using c by (simp add: consistent_def schemaConstraints_def)
  have len: "int (length ids) = rq_Quantity request" using q enough by (simp add: ids_def)
  have dids: "distinct ids"
  proof -
    have "distinct (map tk_ID ?locked)" using pk by (rule distinct_lockedTickets)
    then have "distinct (take (nat (rq_Quantity request)) (map tk_ID ?locked))"
      by (rule distinct_take)
    then show ?thesis by (simp add: ids_def take_map)
  qed
  have rows: "\<exists>t \<in> set (tickets db). tk_ID t = i \<and> tk_EventID t = rq_EventID request
      \<and> tk_Status t = TicketLocked" if "i \<in> set ids" for i
  proof -
    from that obtain t where t: "t \<in> set ?rows" "tk_ID t = i" by (auto simp: ids_def)
    from t(1) have "t \<in> set ?locked" by (rule in_set_takeD)
    then show ?thesis using t(2) by (intro bexI [of _ t]) (simp_all add: set_lockedTickets)
  qed
  have rows_open: "\<forall>i \<in> set ids. \<exists>t \<in> set (tickets db).
      tk_ID t = i \<and> tk_EventID t = rq_EventID request \<and> isOpen (tk_Status t)"
  proof
    fix i assume "i \<in> set ids"
    from rows [OF this] obtain t where "t \<in> set (tickets db)" "tk_ID t = i"
      "tk_EventID t = rq_EventID request" "tk_Status t = TicketLocked"
      by blast
    then show "\<exists>t \<in> set (tickets db).
      tk_ID t = i \<and> tk_EventID t = rq_EventID request \<and> isOpen (tk_Status t)"
      by (intro bexI [of _ t]) (simp_all add: isOpen_def)
  qed
  have tk': "tickets db' = tickets ?db1"
    using updateAvailableTickets_tables(1) [OF up] by simp
  have nid: "bk_ID b \<notin> set (map bk_ID (bookings db))"
    using viol [unfolded bookingInsertViolation_None] by (auto simp: list_ex_iff)
  have sc: "schemaConstraints db'"
  proof -
    have "schemaConstraints db" using c by (simp add: consistent_def)
    then show ?thesis
      unfolding schemaConstraints_alt tk' bs updateTickets_keys using nid by simp
  qed
  have closed: "\<not> isOpen TicketReserved" by (simp add: isOpen_def)
  have ci: "counterInvariant db'"
    unfolding counterInvariant_def
  proof
    fix e' assume "e' \<in> set (events db')"
    then have "e' \<in> set (events ?db2)" by simp
    from in_updateAvailableTickets [OF up this] obtain e where e: "e \<in> set (events ?db1)"
      "ev_ID e' = ev_ID e"
      "ev_AvailableTickets e'
         = ev_AvailableTickets e + (if ev_ID e = rq_EventID request then - rq_Quantity request else 0)"
      by blast
    have "e \<in> set (events db)" using e(1) by simp
    then have inv: "ev_AvailableTickets e = int (openTickets (ev_ID e) db)"
      using c by (simp add: consistent_def counterInvariant_def)
    have same: "openTickets (ev_ID e) db' = openTickets (ev_ID e) ?db1"
      by (simp add: openTickets_def tk')
    have "openTickets (ev_ID e) ?db1 + (if ev_ID e = rq_EventID request then length ids else 0)
            = openTickets (ev_ID e) db"
      using pk dids rows_open closed by (rule openTickets_close)
    then have "int (openTickets (ev_ID e) ?db1)
        = int (openTickets (ev_ID e) db)
          + (if ev_ID e = rq_EventID request then - rq_Quantity request else 0)"
      using len by (simp split: if_splits)
    then show "ev_AvailableTickets e' = int (openTickets (ev_ID e') db')"
      unfolding e(2) e(3) same inv by simp
  qed
  have old_ok: "bookingTicketsOK db' b0"
    if "b0 \<in> set (bookings db)" "bk_Status b0 \<noteq> BookingCancelled" for b0
  proof -
    have "bookingTicketsOK db b0"
      using c that by (simp add: consistent_def bookingsConsistent_def)
    then have "bookingTicketsOK ?db1 b0"
      by (rule bookingTicketsOK_updateTickets) (simp add: isOpen_def)
    then show ?thesis using bookingTicketsOK_cong [of db' ?db1 b0 b0] tk' by simp
  qed
  have new_ok: "bookingTicketsOK db' b"
    unfolding bookingTicketsOK_def bf
  proof (intro conjI ballI)
    show "distinct ids" by (rule dids)
    show "rq_Quantity request = int (length ids)" using len by simp
    fix i assume i: "i \<in> set ids"
    from rows [OF this] obtain t where t: "t \<in> set (tickets db)" "tk_ID t = i"
      "tk_EventID t = rq_EventID request"
      by blast
    have "tk_ID t \<in> set ids" using i t(2) by simp
    with t(1) have "t\<lparr>tk_Status := TicketReserved, tk_UpdatedAt := ck_DB clk\<rparr> \<in> set (tickets ?db1)"
      by (rule updateTickets_touched)
    then show "\<exists>t \<in> set (tickets db'). tk_ID t = i \<and> tk_EventID t = rq_EventID request
        \<and> \<not> isOpen (tk_Status t)"
      unfolding tk' using t(2,3)
      by (intro bexI [of _ "t\<lparr>tk_Status := TicketReserved, tk_UpdatedAt := ck_DB clk\<rparr>"])
        (simp_all add: isOpen_def)
  qed
  have disj_new: "set (bk_TicketIDs b0) \<inter> set ids = {}"
    if "b0 \<in> set (bookings db)" "bk_Status b0 \<noteq> BookingCancelled" for b0
  proof (rule ccontr)
    assume "set (bk_TicketIDs b0) \<inter> set ids \<noteq> {}"
    then obtain i where i: "i \<in> set (bk_TicketIDs b0)" "i \<in> set ids" by blast
    from rows [OF i(2)] obtain t where t: "t \<in> set (tickets db)" "tk_ID t = i"
      "tk_Status t = TicketLocked"
      by blast
    have "tk_ID t \<in> set (bk_TicketIDs b0)" using i(1) t(2) by simp
    from booking_tickets_closed [OF c that t(1) this] have "\<not> isOpen (tk_Status t)" by simp
    then show False using t(3) by (simp add: isOpen_def)
  qed
  have bc: "bookingsConsistent db'"
    unfolding bookingsConsistent_def bs
  proof (intro conjI ballI impI)
    fix b1 assume "b1 \<in> set (bookings db @ [b])" and "bk_Status b1 \<noteq> BookingCancelled"
    then show "bookingTicketsOK db' b1" using old_ok new_ok by auto
  next
    fix b1 b2
    assume m: "b1 \<in> set (bookings db @ [b])" "b2 \<in> set (bookings db @ [b])"
      and h: "bk_ID b1 \<noteq> bk_ID b2 \<and> bk_Status b1 \<noteq> BookingCancelled
              \<and> bk_Status b2 \<noteq> BookingCancelled"
    from m consider (old) "b1 \<in> set (bookings db)" "b2 \<in> set (bookings db)"
      | (right) "b1 \<in> set (bookings db)" "b2 = b"
      | (left) "b1 = b" "b2 \<in> set (bookings db)"
      | (both) "b1 = b" "b2 = b"
      by auto
    then show "set (bk_TicketIDs b1) \<inter> set (bk_TicketIDs b2) = {}"
    proof cases
      case old
      with c h show ?thesis by (intro bookings_disjoint [of db]) simp_all
    next
      case right
      then show ?thesis using disj_new [of b1] h by (simp add: bf)
    next
      case left
      then show ?thesis using disj_new [of b2] h by (simp add: bf Int_commute)
    next
      case both
      then show ?thesis using h by simp
    qed
  qed
  from sc ci bc show ?thesis by (simp add: consistent_def)
qed

lemma consistent_BookTickets:
  assumes c: "consistent db"
  shows "consistent (snd (BookTickets fp cfg env request db))"
proof -
  obtain bo eo db' where r: "BookTickets fp cfg env request db = ((bo, eo), db')"
    by (cases "BookTickets fp cfg env request db") auto
  from BookTickets_cases [OF r] have "consistent db'"
  proof (rule disjE)
    assume "eo = None \<and> (\<exists>n b. bo = Some b
            \<and> bookTicketsWithLock fp cfg (env_Clock env n) request db = Inr (b, db'))"
    then obtain n b where "bookTicketsWithLock fp cfg (env_Clock env n) request db = Inr (b, db')"
      by blast
    with c show ?thesis by (rule consistent_bookTicketsWithLock)
  next
    assume "eo \<noteq> None \<and> bo = None \<and> db' = db"
    then show ?thesis using c by simp
  qed
  then show ?thesis by (simp add: r)
qed

subsection \<open>Consistency is preserved: cancelling\<close>

lemma bookingTicketsOK_updateTickets_other:
  assumes ok: "bookingTicketsOK db b"
    and other: "\<forall>t \<in> set (tickets db). cond t \<longrightarrow> tk_ID t \<notin> set (bk_TicketIDs b)"
  shows "bookingTicketsOK (updateTickets cond status dbNow db) b"
proof -
  let ?db' = "updateTickets cond status dbNow db"
  have "\<exists>t \<in> set (tickets ?db'). tk_ID t = i \<and> tk_EventID t = bk_EventID b \<and> \<not> isOpen (tk_Status t)"
    if "i \<in> set (bk_TicketIDs b)" for i
  proof -
    from ok that obtain t where t: "t \<in> set (tickets db)" "tk_ID t = i"
      "tk_EventID t = bk_EventID b" "\<not> isOpen (tk_Status t)"
      unfolding bookingTicketsOK_def by blast
    have "\<not> cond t" using other t(1,2) that by blast
    with t(1) have "t \<in> set (tickets ?db')" by (rule updateTickets_untouched)
    then show ?thesis using t(2,3,4) by (intro bexI [of _ t]) simp_all
  qed
  then show ?thesis using ok unfolding bookingTicketsOK_def by blast
qed

lemma cancelBookingTx_cancelled:
  assumes "find (\<lambda>b. bk_ID b = bookingID) (bookings db) = Some booking"
    and "bk_Status booking = BookingCancelled"
  shows "cancelBookingTx dbNow bookingID db = Inl ErrBookingAlreadyCancelled"
  using assms by (simp add: cancelBookingTx_def Let_def)

lemma cancelBookingTx_live:
  assumes f: "find (\<lambda>b. bk_ID b = bookingID) (bookings db) = Some booking"
    and live: "bk_Status booking \<noteq> BookingCancelled"
    and ids: "\<forall>i \<in> set (bk_TicketIDs booking). 0 \<le> i \<and> is_go_int i"
  shows "cancelBookingTx dbNow bookingID db =
     (case updateAvailableTickets dbNow (bk_EventID booking) (bk_Quantity booking)
             (updateTickets (\<lambda>t. tk_ID t \<in> set (bk_TicketIDs booking)) TicketAvailable dbNow db) of
        Inl err \<Rightarrow> Inl (ErrUpdateEvent err)
      | Inr db2 \<Rightarrow> Inr ((), updateBookingStatus bookingID BookingCancelled dbNow db2))"
proof -
  have "\<forall>i \<in> set (bk_TicketIDs booking). 0 \<le> i \<and> i < 2 ^ 63"
    using ids by (simp add: is_go_int_def)
  then have "parseTicketIDs (pgArrayText (bk_TicketIDs booking)) = bk_TicketIDs booking"
    by (rule parseTicketIDs_pgArrayText)
  then show ?thesis using f live by (simp add: cancelBookingTx_def Let_def)
qed

lemma updateAvailableTickets_increase:
  assumes "0 \<le> delta" and "\<forall>e \<in> set (events db). 0 \<le> ev_AvailableTickets e"
  shows "\<exists>db2. updateAvailableTickets dbNow eventID delta db = Inr db2"
proof -
  have "\<not> list_ex (\<lambda>e. ev_ID e = eventID \<and> ev_AvailableTickets e + delta < 0) (events db)"
    unfolding list_ex_iff
  proof
    assume "\<exists>e \<in> set (events db). ev_ID e = eventID \<and> ev_AvailableTickets e + delta < 0"
    then obtain e where "e \<in> set (events db)" "ev_AvailableTickets e + delta < 0" by blast
    with assms show False by fastforce
  qed
  then show ?thesis by (simp add: updateAvailableTickets_def)
qed

lemma consistent_cancel:
  assumes c: "consistent db"
    and f: "find (\<lambda>b. bk_ID b = bookingID) (bookings db) = Some booking"
    and live: "bk_Status booking \<noteq> BookingCancelled"
    and up: "updateAvailableTickets dbNow (bk_EventID booking) (bk_Quantity booking)
               (updateTickets (\<lambda>t. tk_ID t \<in> set (bk_TicketIDs booking)) TicketAvailable dbNow db)
             = Inr db2"
  shows "consistent (updateBookingStatus bookingID BookingCancelled dbNow db2)"
proof -
  let ?ids = "bk_TicketIDs booking"
  let ?db1 = "updateTickets (\<lambda>t. tk_ID t \<in> set ?ids) TicketAvailable dbNow db"
  let ?db3 = "updateBookingStatus bookingID BookingCancelled dbNow db2"
  have bin: "booking \<in> set (bookings db)" "bk_ID booking = bookingID"
    using f by (auto simp: find_Some_iff)
  have pk: "distinct (map tk_ID (tickets db))"
    using c by (simp add: consistent_def schemaConstraints_def)
  have bok: "bookingTicketsOK db booking"
    using c bin(1) live by (simp add: consistent_def bookingsConsistent_def)
  have dids: "distinct ?ids" and qty: "bk_Quantity booking = int (length ?ids)"
    using bok by (simp_all add: bookingTicketsOK_def)
  have rows: "\<forall>i \<in> set ?ids. \<exists>t \<in> set (tickets db).
      tk_ID t = i \<and> tk_EventID t = bk_EventID booking \<and> \<not> isOpen (tk_Status t)"
    using bok by (simp add: bookingTicketsOK_def)
  have tk2: "tickets db2 = tickets ?db1" and bk2: "bookings db2 = bookings db"
    using updateAvailableTickets_tables [OF up] by simp_all
  have "schemaConstraints ?db3 = schemaConstraints db"
    by (rule schemaConstraints_keys) (simp_all add: tk2 bk2 updateTickets_keys)
  then have sc: "schemaConstraints ?db3" using c by (simp add: consistent_def)
  have opn: "isOpen TicketAvailable" by (simp add: isOpen_def)
  have ci: "counterInvariant ?db3"
    unfolding counterInvariant_def
  proof
    fix e' assume "e' \<in> set (events ?db3)"
    then have "e' \<in> set (events db2)" by simp
    from in_updateAvailableTickets [OF up this] obtain e where e: "e \<in> set (events ?db1)"
      "ev_ID e' = ev_ID e"
      "ev_AvailableTickets e'
         = ev_AvailableTickets e + (if ev_ID e = bk_EventID booking then bk_Quantity booking else 0)"
      by blast
    have "e \<in> set (events db)" using e(1) by simp
    then have inv: "ev_AvailableTickets e = int (openTickets (ev_ID e) db)"
      using c by (simp add: consistent_def counterInvariant_def)
    have same: "openTickets (ev_ID e) ?db3 = openTickets (ev_ID e) ?db1"
      by (simp add: openTickets_def tk2)
    have "openTickets (ev_ID e) ?db1
            = openTickets (ev_ID e) db + (if ev_ID e = bk_EventID booking then length ?ids else 0)"
      using pk dids rows opn by (rule openTickets_reopen)
    then show "ev_AvailableTickets e' = int (openTickets (ev_ID e') ?db3)"
      unfolding e(2) e(3) same inv using qty by simp
  qed
  have old: "b' \<in> set (bookings db) \<and> bk_ID b' \<noteq> bookingID"
    if "b' \<in> set (bookings ?db3)" "bk_Status b' \<noteq> BookingCancelled" for b'
    using that(1)
  proof (cases rule: in_updateBookingStatus)
    case (1 b0)
    then show ?thesis by (simp add: bk2)
  next
    case (2 b0)
    then show ?thesis using that(2) by simp
  qed
  have bc: "bookingsConsistent ?db3"
    unfolding bookingsConsistent_def
  proof (intro conjI ballI impI)
    fix b' assume m: "b' \<in> set (bookings ?db3)" and l: "bk_Status b' \<noteq> BookingCancelled"
    from old [OF m l] have b': "b' \<in> set (bookings db)" "bk_ID b' \<noteq> bookingID" by simp_all
    have ok: "bookingTicketsOK db b'"
      using c b'(1) l by (simp add: consistent_def bookingsConsistent_def)
    have "set (bk_TicketIDs b') \<inter> set ?ids = {}"
      using c b'(1) bin(1) _ l live by (rule bookings_disjoint) (simp add: bin(2) b'(2))
    then have "\<forall>t \<in> set (tickets db). tk_ID t \<in> set ?ids \<longrightarrow> tk_ID t \<notin> set (bk_TicketIDs b')"
      by blast
    with ok have "bookingTicketsOK ?db1 b'" by (rule bookingTicketsOK_updateTickets_other)
    then show "bookingTicketsOK ?db3 b'"
      using bookingTicketsOK_cong [of ?db3 ?db1 b' b'] by (simp add: tk2)
  next
    fix b1 b2
    assume m: "b1 \<in> set (bookings ?db3)" "b2 \<in> set (bookings ?db3)"
      and h: "bk_ID b1 \<noteq> bk_ID b2 \<and> bk_Status b1 \<noteq> BookingCancelled
              \<and> bk_Status b2 \<noteq> BookingCancelled"
    from old [OF m(1)] old [OF m(2)] h
    have "b1 \<in> set (bookings db)" "b2 \<in> set (bookings db)" by simp_all
    with c show "set (bk_TicketIDs b1) \<inter> set (bk_TicketIDs b2) = {}"
      using h by (intro bookings_disjoint [of db]) simp_all
  qed
  from sc ci bc show ?thesis by (simp add: consistent_def)
qed

text \<open>In a consistent store, cancelling a booking that is not yet cancelled succeeds.\<close>

lemma CancelBooking_live:
  assumes c: "consistent db"
    and f: "find (\<lambda>b. bk_ID b = bookingID) (bookings db) = Some booking"
    and live: "bk_Status booking \<noteq> BookingCancelled"
  shows "\<exists>db2. updateAvailableTickets dbNow (bk_EventID booking) (bk_Quantity booking)
                 (updateTickets (\<lambda>t. tk_ID t \<in> set (bk_TicketIDs booking)) TicketAvailable dbNow db)
               = Inr db2
           \<and> CancelBooking dbNow bookingID db
               = (Inr (), updateBookingStatus bookingID BookingCancelled dbNow db2)"
proof -
  let ?db1 = "updateTickets (\<lambda>t. tk_ID t \<in> set (bk_TicketIDs booking)) TicketAvailable dbNow db"
  have bin: "booking \<in> set (bookings db)" using f by (auto simp: find_Some_iff)
  have ids: "\<forall>i \<in> set (bk_TicketIDs booking). 0 \<le> i \<and> is_go_int i"
    using c bin live by (rule booking_ids_go_ints)
  have "bookingTicketsOK db booking"
    using c bin live by (simp add: consistent_def bookingsConsistent_def)
  then have q: "0 \<le> bk_Quantity booking" by (simp add: bookingTicketsOK_def)
  have "\<forall>e \<in> set (events ?db1). 0 \<le> ev_AvailableTickets e"
    using c by (simp add: consistent_def counterInvariant_def)
  with q obtain db2 where up: "updateAvailableTickets dbNow (bk_EventID booking)
      (bk_Quantity booking) ?db1 = Inr db2"
    using updateAvailableTickets_increase by blast
  have "CancelBooking dbNow bookingID db
      = (Inr (), updateBookingStatus bookingID BookingCancelled dbNow db2)"
    unfolding CancelBooking_def WithTransaction_def cancelBookingTx_live [OF f live ids] up
    by simp
  with up show ?thesis by blast
qed

lemma consistent_CancelBooking:
  assumes c: "consistent db"
  shows "consistent (snd (CancelBooking dbNow bookingID db))"
proof (cases "find (\<lambda>b. bk_ID b = bookingID) (bookings db)")
  case None
  then have "cancelBookingTx dbNow bookingID db = Inl (ErrBookingNotFound ErrNoRows)"
    by (simp add: cancelBookingTx_def)
  then show ?thesis using c by (simp add: CancelBooking_def WithTransaction_def)
next
  case (Some booking)
  show ?thesis
  proof (cases "bk_Status booking = BookingCancelled")
    case True
    with Some have "cancelBookingTx dbNow bookingID db = Inl ErrBookingAlreadyCancelled"
      by (rule cancelBookingTx_cancelled)
    then show ?thesis using c by (simp add: CancelBooking_def WithTransaction_def)
  next
    case False
    from CancelBooking_live [OF c Some False] obtain db2 where
      up: "updateAvailableTickets dbNow (bk_EventID booking) (bk_Quantity booking)
             (updateTickets (\<lambda>t. tk_ID t \<in> set (bk_TicketIDs booking)) TicketAvailable dbNow db)
           = Inr db2"
      and r: "CancelBooking dbNow bookingID db
           = (Inr (), updateBookingStatus bookingID BookingCancelled dbNow db2)"
      by blast
    from consistent_cancel [OF c Some False up] show ?thesis by (simp add: r)
  qed
qed

subsection \<open>The counter of available tickets\<close>

lemma consistent_sample: "consistent sampleDb" "consistent heldDb"
  by (simp_all add: consistent_def schemaConstraints_def counterInvariant_def
      bookingsConsistent_def openTickets_def isOpen_def sampleDb_def heldDb_def sampleEvent_def
      sampleTicket_def is_go_int_def)

lemma LockSeat_sample: "LockSeat (10 * Minute) 1 ''S002'' sampleDb = (Inr (), heldDb)"
  by (simp add: LockSeat_def WithTransaction_def lockSeatTx_def Let_def seatMatches_def
      updateTickets_def rowsAffected_def sampleDb_def heldDb_def sampleTicket_def)

text \<open>
  Claim C1 as stated fails. In the sample store the event has three tickets, all
  \<open>available\<close>, and its counter is 3. A hold on seat S002 succeeds and sets that ticket to
  \<open>locked\<close>; the counter is still 3, and two tickets are \<open>available\<close>.
\<close>

theorem LockSeat_counter_counterexample:
  "consistent sampleDb
   \<and> specAvailableInvariant sampleDb
   \<and> LockSeat (10 * Minute) 1 ''S002'' sampleDb = (Inr (), heldDb)
   \<and> map ev_AvailableTickets (events heldDb) = [3]
   \<and> length (filter (\<lambda>t. tk_EventID t = 1 \<and> tk_Status t = TicketAvailable) (tickets heldDb)) = 2
   \<and> \<not> specAvailableInvariant heldDb"
proof -
  have before: "specAvailableInvariant sampleDb"
    by (simp add: specAvailableInvariant_def sampleDb_def sampleEvent_def sampleTicket_def)
  have counter: "map ev_AvailableTickets (events heldDb) = [3]"
    by (simp add: heldDb_def sampleDb_def sampleEvent_def)
  have free: "length (filter (\<lambda>t. tk_EventID t = 1 \<and> tk_Status t = TicketAvailable)
      (tickets heldDb)) = 2"
    by (simp add: heldDb_def sampleTicket_def)
  have after: "\<not> specAvailableInvariant heldDb"
    by (simp add: specAvailableInvariant_def heldDb_def sampleDb_def sampleEvent_def sampleTicket_def)
  show ?thesis
    using consistent_sample(1) before LockSeat_sample counter free after by (intro conjI)
qed

text \<open>
  Claim C1, amended. The counter \<open>available_tickets\<close> of an event counts the tickets of
  the event that are not part of a booking, that is, those whose status is \<open>available\<close>
  or \<open>locked\<close>: a hold does not change the counter. In every store that is consistent (the
  keys of the schema hold, every counter equals that number, and the bookings that are
  not cancelled list distinct \<open>reserved\<close> or \<open>sold\<close> tickets of their event, as many as
  their quantity, and share no ticket), every core mutation, whether it succeeds or
  fails, leaves a store that is consistent again, so that every counter again equals the
  number of the event's tickets that are \<open>available\<close> or \<open>locked\<close>.
\<close>

theorem counter_preserved:
  assumes c: "consistent db"
  shows "counterInvariant db
   \<and> consistent (snd (LockSeat dbNow eventID seatNo db))
   \<and> counterInvariant (snd (LockSeat dbNow eventID seatNo db))
   \<and> consistent (snd (UnlockSeat dbNow eventID seatNo db))
   \<and> counterInvariant (snd (UnlockSeat dbNow eventID seatNo db))
   \<and> consistent (snd (CleanupExpiredLocks fp cfg dbNow db))
   \<and> counterInvariant (snd (CleanupExpiredLocks fp cfg dbNow db))
   \<and> consistent (snd (BookTickets fp cfg env request db))
   \<and> counterInvariant (snd (BookTickets fp cfg env request db))
   \<and> consistent (snd (ConfirmBooking now dbNow bookingID db))
   \<and> counterInvariant (snd (ConfirmBooking now dbNow bookingID db))
   \<and> consistent (snd (CancelBooking dbNow bookingID db))
   \<and> counterInvariant (snd (CancelBooking dbNow bookingID db))"
proof -
  have ci: "counterInvariant s" if "consistent s" for s
    using that by (simp add: consistent_def)
  note l = consistent_LockSeat [OF c, of dbNow eventID seatNo]
  note u = consistent_UnlockSeat [OF c, of dbNow eventID seatNo]
  note s = consistent_CleanupExpiredLocks [OF c, of fp cfg dbNow]
  note b = consistent_BookTickets [OF c, of fp cfg env request]
  note f = consistent_ConfirmBooking [OF c, of now dbNow bookingID]
  note x = consistent_CancelBooking [OF c, of dbNow bookingID]
  show ?thesis
    using ci [OF c] l ci [OF l] u ci [OF u] s ci [OF s] b ci [OF b] f ci [OF f] x ci [OF x]
    by (intro conjI)
qed

theorem counter_preserved_witness:
  "consistent heldDb
   \<and> counterInvariant (snd (LockSeat (11 * Minute) 1 ''S001'' heldDb))
   \<and> counterInvariant (snd (UnlockSeat (11 * Minute) 1 ''S001'' heldDb))
   \<and> counterInvariant (snd (CleanupExpiredLocks exactFloat64 sampleConfig (11 * Minute) heldDb))
   \<and> snd (BookTickets exactFloat64 sampleConfig (sampleEnv (500 * Minute)) (sampleRequest 1) heldDb)
        = reservedDb (500 * Minute)
   \<and> consistent (reservedDb (500 * Minute))
   \<and> map ev_AvailableTickets (events (reservedDb (500 * Minute))) = [2]
   \<and> map tk_Status (tickets (reservedDb (500 * Minute)))
        = [TicketAvailable, TicketReserved, TicketAvailable]
   \<and> counterInvariant (snd (ConfirmBooking (501 * Minute) (501 * Minute) 1 (reservedDb (500 * Minute))))
   \<and> counterInvariant (snd (CancelBooking (501 * Minute) 1 (reservedDb (500 * Minute))))"
proof -
  note held = counter_preserved [OF consistent_sample(2),
      where dbNow = "11 * Minute" and eventID = 1 and seatNo = "''S001''" and fp = exactFloat64
        and cfg = sampleConfig and env = "sampleEnv (500 * Minute)" and request = "sampleRequest 1"
        and now = "11 * Minute" and bookingID = 1]
  have now: "500 * Minute \<le> 1000 * Minute" by (simp add: Minute_def)
  have "bookTicketsWithLock exactFloat64 sampleConfig (env_Clock (sampleEnv (500 * Minute)) 0)
          (sampleRequest 1) heldDb
        = Inr (sampleBooking (500 * Minute), reservedDb (500 * Minute))"
    using book_heldDb [OF now] by (simp add: sampleEnv_def)
  then have "BookTickets exactFloat64 sampleConfig (sampleEnv (500 * Minute)) (sampleRequest 1) heldDb
     = ((Some (sampleBooking (500 * Minute)), None), reservedDb (500 * Minute))"
    by (rule BookTickets_ok)
  then have booked: "snd (BookTickets exactFloat64 sampleConfig (sampleEnv (500 * Minute))
      (sampleRequest 1) heldDb) = reservedDb (500 * Minute)"
    by simp
  from held have "consistent (snd (BookTickets exactFloat64 sampleConfig (sampleEnv (500 * Minute))
      (sampleRequest 1) heldDb))"
    by (elim conjE)
  then have reserved: "consistent (reservedDb (500 * Minute))" unfolding booked .
  note res = counter_preserved [OF reserved,
      where dbNow = "501 * Minute" and eventID = 1 and seatNo = "''S001''" and fp = exactFloat64
        and cfg = sampleConfig and env = "sampleEnv (500 * Minute)" and request = "sampleRequest 1"
        and now = "501 * Minute" and bookingID = 1]
  have counter: "map ev_AvailableTickets (events (reservedDb (500 * Minute))) = [2]"
    by (simp add: reservedDb_def)
  have statuses: "map tk_Status (tickets (reservedDb (500 * Minute)))
        = [TicketAvailable, TicketReserved, TicketAvailable]"
    by (simp add: reservedDb_def sampleTicket_def)
  from held have l: "counterInvariant (snd (LockSeat (11 * Minute) 1 ''S001'' heldDb))"
    by (elim conjE)
  from held have u: "counterInvariant (snd (UnlockSeat (11 * Minute) 1 ''S001'' heldDb))"
    by (elim conjE)
  from held have s: "counterInvariant (snd (CleanupExpiredLocks exactFloat64 sampleConfig
      (11 * Minute) heldDb))"
    by (elim conjE)
  from res have f: "counterInvariant (snd (ConfirmBooking (501 * Minute) (501 * Minute) 1
      (reservedDb (500 * Minute))))"
    by (elim conjE)
  from res have x: "counterInvariant (snd (CancelBooking (501 * Minute) 1 (reservedDb (500 * Minute))))"
    by (elim conjE)
  show ?thesis
    using consistent_sample(2) l u s booked reserved counter statuses f x by (intro conjI)
qed

subsection \<open>Hold, book, cancel\<close>

lemma LockSeat_InrD:
  assumes "LockSeat dbNow eventID seatNo db = (Inr u, db1)"
  shows "db1 = updateTickets (seatMatches eventID seatNo) TicketLocked dbNow db"
proof (cases "lockSeatTx dbNow eventID seatNo db")
  case (Inl e)
  then show ?thesis using assms by (simp add: LockSeat_def WithTransaction_def)
next
  case (Inr p)
  obtain t where f: "find (seatMatches eventID seatNo) (tickets db) = Some t"
    using Inr by (cases "find (seatMatches eventID seatNo) (tickets db)")
      (simp_all add: lockSeatTx_def)
  have av: "tk_Status t = TicketAvailable"
  proof (rule ccontr)
    assume "tk_Status t \<noteq> TicketAvailable"
    then have "ticketStatusText (tk_Status t) \<noteq> ''available''"
      by (cases "tk_Status t") simp_all
    then show False using Inr f by (simp add: lockSeatTx_def Let_def)
  qed
  have "p = ((), updateTickets (seatMatches eventID seatNo) TicketLocked dbNow db)"
    using Inr f av by (simp add: lockSeatTx_def Let_def split: if_splits)
  then show ?thesis using assms Inr by (simp add: LockSeat_def WithTransaction_def)
qed

lemma updateTickets_seats:
  "map (\<lambda>t. (tk_ID t, tk_EventID t, tk_SeatNo t)) (tickets (updateTickets cond status dbNow db))
     = map (\<lambda>t. (tk_ID t, tk_EventID t, tk_SeatNo t)) (tickets db)"
  by (simp add: tickets_updateTickets o_def if_distrib cong: if_cong)

lemma find_snoc_fresh:
  "\<forall>x \<in> set xs. \<not> P x \<Longrightarrow> P y \<Longrightarrow> find P (xs @ [y]) = Some y"
  by (induction xs) simp_all

lemma counters_restored:
  "map ev_ID
     (map (\<lambda>e. if ev_ID e = eid
                then e\<lparr>ev_AvailableTickets := ev_AvailableTickets e + q, ev_UpdatedAt := t2\<rparr> else e)
        (map (\<lambda>e. if ev_ID e = eid
                   then e\<lparr>ev_AvailableTickets := ev_AvailableTickets e + - q, ev_UpdatedAt := t1\<rparr>
                   else e) es))
     = map ev_ID es
   \<and> map ev_AvailableTickets
     (map (\<lambda>e. if ev_ID e = eid
                then e\<lparr>ev_AvailableTickets := ev_AvailableTickets e + q, ev_UpdatedAt := t2\<rparr> else e)
        (map (\<lambda>e. if ev_ID e = eid
                   then e\<lparr>ev_AvailableTickets := ev_AvailableTickets e + - q, ev_UpdatedAt := t1\<rparr>
                   else e) es))
     = map ev_AvailableTickets es"
  by (induction es) simp_all

text \<open>
  A booking made in a consistent store can be cancelled: the cancellation succeeds, sets
  the tickets of the booking to \<open>available\<close>, and gives every counter the value it had
  before the booking.
\<close>

lemma book_then_cancel:
  assumes c1: "consistent db1"
    and book: "bookTicketsWithLock fp cfg clk request db1 = Inr (b, db2)"
  shows "\<exists>db3. CancelBooking t3 (bk_ID b) db2 = (Inr (), db3)
      \<and> (\<forall>i \<in> set (bk_TicketIDs b).
            \<exists>t \<in> set (tickets db3). tk_ID t = i \<and> tk_Status t = TicketAvailable)
      \<and> map ev_ID (events db3) = map ev_ID (events db1)
      \<and> map ev_AvailableTickets (events db3) = map ev_AvailableTickets (events db1)
      \<and> map (\<lambda>t. (tk_ID t, tk_EventID t, tk_SeatNo t)) (tickets db3)
          = map (\<lambda>t. (tk_ID t, tk_EventID t, tk_SeatNo t)) (tickets db1)
      \<and> find (\<lambda>b'. bk_ID b' = bk_ID b) (bookings db3)
          = Some (b\<lparr>bk_Status := BookingCancelled, bk_UpdatedAt := t3\<rparr>)
      \<and> consistent db3"
proof -
  define ids where "ids = map tk_ID (take (nat (rq_Quantity request))
      (lockedTickets (rq_EventID request) db1))"
  let ?d1 = "updateTickets (\<lambda>t. tk_ID t \<in> set ids) TicketReserved (ck_DB clk) db1"
  let ?d2 = "db2\<lparr>bookings := bookings db1, bookings_id_seq := bookings_id_seq db1\<rparr>"
  from bookTicketsWithLock_InrD [OF book] obtain event where
    b: "b = pendingBooking fp cfg clk request event ids (bookings_id_seq db1 + 1)"
    and up1: "updateAvailableTickets (ck_DB clk) (rq_EventID request) (- rq_Quantity request) ?d1
               = Inr ?d2"
    and bs: "bookings db2 = bookings db1 @ [b]"
    and viol: "bookingInsertViolation b db1 = None"
    unfolding ids_def by blast
  have bf: "bk_TicketIDs b = ids" "bk_Quantity b = rq_Quantity request"
    "bk_EventID b = rq_EventID request" "bk_Status b = BookingPending"
    by (simp_all add: b pendingBooking_def)
  have live: "bk_Status b \<noteq> BookingCancelled" by (simp add: bf)
  have c2: "consistent db2" using c1 book by (rule consistent_bookTicketsWithLock)
  have "\<forall>b' \<in> set (bookings db1). \<not> bk_ID b' = bk_ID b"
    using viol [unfolded bookingInsertViolation_None] by (simp add: list_ex_iff)
  then have f2: "find (\<lambda>b'. bk_ID b' = bk_ID b) (bookings db2) = Some b"
    unfolding bs by (rule find_snoc_fresh) simp
  have ev2: "events db2
      = map (\<lambda>e. if ev_ID e = rq_EventID request
                  then e\<lparr>ev_AvailableTickets := ev_AvailableTickets e + - rq_Quantity request,
                         ev_UpdatedAt := ck_DB clk\<rparr>
                  else e) (events db1)"
    using arg_cong [OF updateAvailableTickets_InrD(1) [OF up1], of events] by simp
  have tk2: "tickets db2 = tickets ?d1"
    using updateAvailableTickets_tables(1) [OF up1] by simp
  let ?c1 = "updateTickets (\<lambda>t. tk_ID t \<in> set (bk_TicketIDs b)) TicketAvailable t3 db2"
  from CancelBooking_live [OF c2 f2 live] obtain dbc where
    up2: "updateAvailableTickets t3 (bk_EventID b) (bk_Quantity b) ?c1 = Inr dbc"
    and r: "CancelBooking t3 (bk_ID b) db2
          = (Inr (), updateBookingStatus (bk_ID b) BookingCancelled t3 dbc)"
    by blast
  let ?db3 = "updateBookingStatus (bk_ID b) BookingCancelled t3 dbc"
  have tk3: "tickets ?db3 = tickets ?c1"
    using updateAvailableTickets_tables(1) [OF up2] by simp
  have bk3: "bookings dbc = bookings db2"
    using updateAvailableTickets_tables(2) [OF up2] by simp
  have ev3: "events ?db3
      = map (\<lambda>e. if ev_ID e = rq_EventID request
                  then e\<lparr>ev_AvailableTickets := ev_AvailableTickets e + rq_Quantity request,
                         ev_UpdatedAt := t3\<rparr>
                  else e) (events db2)"
    using arg_cong [OF updateAvailableTickets_InrD(1) [OF up2], of events] by (simp add: bf)
  have q1: "\<forall>i \<in> set (bk_TicketIDs b).
      \<exists>t \<in> set (tickets ?db3). tk_ID t = i \<and> tk_Status t = TicketAvailable"
  proof
    fix i assume i: "i \<in> set (bk_TicketIDs b)"
    have bin: "b \<in> set (bookings db2)" by (simp add: bs)
    have "bookingTicketsOK db2 b"
      using c2 bin live by (simp add: consistent_def bookingsConsistent_def)
    with i obtain t where t: "t \<in> set (tickets db2)" "tk_ID t = i"
      unfolding bookingTicketsOK_def by blast
    have "tk_ID t \<in> set (bk_TicketIDs b)" using i t(2) by simp
    with t(1) have "t\<lparr>tk_Status := TicketAvailable, tk_UpdatedAt := t3\<rparr> \<in> set (tickets ?c1)"
      by (rule updateTickets_touched)
    then show "\<exists>t \<in> set (tickets ?db3). tk_ID t = i \<and> tk_Status t = TicketAvailable"
      unfolding tk3 using t(2)
      by (intro bexI [of _ "t\<lparr>tk_Status := TicketAvailable, tk_UpdatedAt := t3\<rparr>"]) simp_all
  qed
  have q2: "map ev_ID (events ?db3) = map ev_ID (events db1)"
    and q3: "map ev_AvailableTickets (events ?db3) = map ev_AvailableTickets (events db1)"
    unfolding ev3 ev2 using counters_restored [of "rq_EventID request" "rq_Quantity request" t3
        "ck_DB clk" "events db1"]
    by simp_all
  have q4: "map (\<lambda>t. (tk_ID t, tk_EventID t, tk_SeatNo t)) (tickets ?db3)
          = map (\<lambda>t. (tk_ID t, tk_EventID t, tk_SeatNo t)) (tickets db1)"
    unfolding tk3 updateTickets_seats tk2 ..
  have q5: "find (\<lambda>b'. bk_ID b' = bk_ID b) (bookings ?db3)
          = Some (b\<lparr>bk_Status := BookingCancelled, bk_UpdatedAt := t3\<rparr>)"
    by (simp add: updateBookingStatus_def find_booking_update bk3 f2)
  have q6: "consistent ?db3" using c2 f2 live up2 by (rule consistent_cancel)
  from r q1 q2 q3 q4 q5 q6 show ?thesis by (intro exI [of _ ?db3] conjI)
qed

lemma CancelBooking_cancelled:
  assumes "find (\<lambda>b. bk_ID b = bookingID) (bookings db) = Some booking"
    and "bk_Status booking = BookingCancelled"
  shows "CancelBooking dbNow bookingID db = (Inl ErrBookingAlreadyCancelled, db)"
  using cancelBookingTx_cancelled [OF assms] by (simp add: CancelBooking_def WithTransaction_def)
text \<open>
  Claim C5. In a consistent store, let a hold on seat S succeed, let a booking then
  succeed, and let the resulting booking be cancelled. The cancellation succeeds; every
  ticket of the booking's \<open>ticket_ids\<close> is \<open>available\<close> afterwards, and so is the ticket
  of seat S when the booking claimed it; every event has the \<open>available_tickets\<close> it had
  before the hold; and a second cancellation of the booking is rejected with "booking is
  already cancelled". In any consistent store, the cancellation of a booking that exists
  is rejected when its status is \<open>cancelled\<close>, leaving the store unchanged, and succeeds
  for every other status.
\<close>

theorem cancel_round_trip:
  assumes c: "consistent db"
    and hold: "LockSeat t1 eventID seatNo db = (Inr (), db1)"
    and book: "BookTickets fp cfg env request db1 = ((Some b, None), db2)"
    and cs: "consistent s"
    and found: "find (\<lambda>b'. bk_ID b' = bookingID) (bookings s) = Some booking"
  shows "fst (CancelBooking t3 (bk_ID b) db2) = Inr ()
   \<and> (\<forall>i \<in> set (bk_TicketIDs b).
         \<exists>t \<in> set (tickets (snd (CancelBooking t3 (bk_ID b) db2))).
           tk_ID t = i \<and> tk_Status t = TicketAvailable)
   \<and> (\<forall>t \<in> set (tickets db1).
         seatMatches eventID seatNo t \<and> tk_ID t \<in> set (bk_TicketIDs b)
         \<longrightarrow> (\<exists>t' \<in> set (tickets (snd (CancelBooking t3 (bk_ID b) db2))).
                seatMatches eventID seatNo t' \<and> tk_ID t' = tk_ID t
                \<and> tk_Status t' = TicketAvailable))
   \<and> map ev_ID (events (snd (CancelBooking t3 (bk_ID b) db2))) = map ev_ID (events db)
   \<and> map ev_AvailableTickets (events (snd (CancelBooking t3 (bk_ID b) db2)))
       = map ev_AvailableTickets (events db)
   \<and> CancelBooking t4 (bk_ID b) (snd (CancelBooking t3 (bk_ID b) db2))
       = (Inl ErrBookingAlreadyCancelled, snd (CancelBooking t3 (bk_ID b) db2))
   \<and> (bk_Status booking = BookingCancelled
        \<longrightarrow> CancelBooking t3 bookingID s = (Inl ErrBookingAlreadyCancelled, s))
   \<and> (bk_Status booking \<noteq> BookingCancelled \<longrightarrow> fst (CancelBooking t3 bookingID s) = Inr ())"
proof -
  have db1: "db1 = updateTickets (seatMatches eventID seatNo) TicketLocked t1 db"
    using hold by (rule LockSeat_InrD)
  have c1: "consistent db1"
    using consistent_LockSeat [OF c, of t1 eventID seatNo] hold by simp
  have pk1: "distinct (map tk_ID (tickets db1))"
    using c1 by (simp add: consistent_def schemaConstraints_def)
  from BookTickets_cases [OF book] obtain n where
    tx: "bookTicketsWithLock fp cfg (env_Clock env n) request db1 = Inr (b, db2)"
    by auto
  from book_then_cancel [OF c1 tx, of t3] obtain db3 where
    r: "CancelBooking t3 (bk_ID b) db2 = (Inr (), db3)"
    and q1: "\<forall>i \<in> set (bk_TicketIDs b).
            \<exists>t \<in> set (tickets db3). tk_ID t = i \<and> tk_Status t = TicketAvailable"
    and q2: "map ev_ID (events db3) = map ev_ID (events db1)"
    and q3: "map ev_AvailableTickets (events db3) = map ev_AvailableTickets (events db1)"
    and q4: "map (\<lambda>t. (tk_ID t, tk_EventID t, tk_SeatNo t)) (tickets db3)
          = map (\<lambda>t. (tk_ID t, tk_EventID t, tk_SeatNo t)) (tickets db1)"
    and q5: "find (\<lambda>b'. bk_ID b' = bk_ID b) (bookings db3)
          = Some (b\<lparr>bk_Status := BookingCancelled, bk_UpdatedAt := t3\<rparr>)"
    by blast
  have ev1: "events db1 = events db" by (simp add: db1)
  have p1: "fst (CancelBooking t3 (bk_ID b) db2) = Inr ()" by (simp add: r)
  have s3: "snd (CancelBooking t3 (bk_ID b) db2) = db3" by (simp add: r)
  have p3: "\<forall>t \<in> set (tickets db1).
         seatMatches eventID seatNo t \<and> tk_ID t \<in> set (bk_TicketIDs b)
         \<longrightarrow> (\<exists>t' \<in> set (tickets db3).
                seatMatches eventID seatNo t' \<and> tk_ID t' = tk_ID t
                \<and> tk_Status t' = TicketAvailable)"
  proof (intro ballI impI)
    fix t assume t: "t \<in> set (tickets db1)"
      and m: "seatMatches eventID seatNo t \<and> tk_ID t \<in> set (bk_TicketIDs b)"
    from q1 m obtain t' where t': "t' \<in> set (tickets db3)" "tk_ID t' = tk_ID t"
      "tk_Status t' = TicketAvailable"
      by blast
    have "(tk_ID t', tk_EventID t', tk_SeatNo t')
        \<in> set (map (\<lambda>t. (tk_ID t, tk_EventID t, tk_SeatNo t)) (tickets db3))"
      using t'(1) by (simp only: set_map) (rule imageI)
    then have "(tk_ID t', tk_EventID t', tk_SeatNo t')
        \<in> (\<lambda>t. (tk_ID t, tk_EventID t, tk_SeatNo t)) ` set (tickets db1)"
      unfolding q4 by (simp only: set_map)
    then obtain t0 where t0: "(tk_ID t', tk_EventID t', tk_SeatNo t')
        = (tk_ID t0, tk_EventID t0, tk_SeatNo t0)" "t0 \<in> set (tickets db1)"
      by (rule imageE)
    have "tk_ID t0 = tk_ID t" using t0(1) t'(2) by simp
    with pk1 t t0(2) have "t0 = t" by (rule ticket_by_id)
    then have "seatMatches eventID seatNo t'" using t0(1) m by (simp add: seatMatches_def)
    with t'(1,2,3) show "\<exists>t' \<in> set (tickets db3).
                seatMatches eventID seatNo t' \<and> tk_ID t' = tk_ID t
                \<and> tk_Status t' = TicketAvailable"
      by (intro bexI [of _ t']) simp_all
  qed
  have p6: "CancelBooking t4 (bk_ID b) db3 = (Inl ErrBookingAlreadyCancelled, db3)"
    using q5 by (rule CancelBooking_cancelled) simp
  have p7: "bk_Status booking = BookingCancelled
        \<longrightarrow> CancelBooking t3 bookingID s = (Inl ErrBookingAlreadyCancelled, s)"
    using CancelBooking_cancelled [OF found] by blast
  have p8: "bk_Status booking \<noteq> BookingCancelled \<longrightarrow> fst (CancelBooking t3 bookingID s) = Inr ()"
  proof
    assume "bk_Status booking \<noteq> BookingCancelled"
    from CancelBooking_live [OF cs found this, of t3]
    show "fst (CancelBooking t3 bookingID s) = Inr ()" by auto
  qed
  show ?thesis
    unfolding s3 using p1 q1 p3 q2 [unfolded ev1] q3 [unfolded ev1] p6 p7 p8
    unfolding s3 by (intro conjI)
qed

theorem cancel_round_trip_witness:
  "consistent sampleDb
   \<and> LockSeat (10 * Minute) 1 ''S002'' sampleDb = (Inr (), heldDb)
   \<and> BookTickets exactFloat64 sampleConfig (sampleEnv (500 * Minute)) (sampleRequest 1) heldDb
       = ((Some (sampleBooking (500 * Minute)), None), reservedDb (500 * Minute))
   \<and> bk_ID (sampleBooking (500 * Minute)) = 1
   \<and> bk_TicketIDs (sampleBooking (500 * Minute)) = [2]
   \<and> map ev_AvailableTickets (events sampleDb) = [3]
   \<and> map ev_AvailableTickets (events (reservedDb (500 * Minute))) = [2]
   \<and> consistent (reservedDb (500 * Minute))
   \<and> find (\<lambda>b'. bk_ID b' = 1) (bookings (reservedDb (500 * Minute)))
       = Some (sampleBooking (500 * Minute))
   \<and> bk_Status (sampleBooking (500 * Minute)) \<noteq> BookingCancelled
   \<and> fst (CancelBooking (501 * Minute) 1 (reservedDb (500 * Minute))) = Inr ()
   \<and> list_all (\<lambda>i. list_ex (\<lambda>t. tk_ID t = i \<and> tk_Status t = TicketAvailable)
                  (tickets (snd (CancelBooking (501 * Minute) 1 (reservedDb (500 * Minute))))))
        [2]
   \<and> list_ex (\<lambda>t. seatMatches 1 ''S002'' t \<and> tk_Status t = TicketAvailable)
        (tickets (snd (CancelBooking (501 * Minute) 1 (reservedDb (500 * Minute)))))
   \<and> map ev_AvailableTickets (events (snd (CancelBooking (501 * Minute) 1 (reservedDb (500 * Minute)))))
       = [3]
   \<and> CancelBooking (502 * Minute) 1 (snd (CancelBooking (501 * Minute) 1 (reservedDb (500 * Minute))))
       = (Inl ErrBookingAlreadyCancelled,
          snd (CancelBooking (501 * Minute) 1 (reservedDb (500 * Minute))))"
proof -
  let ?b = "sampleBooking (500 * Minute)" and ?db2 = "reservedDb (500 * Minute)"
  let ?db3 = "snd (CancelBooking (501 * Minute) 1 ?db2)"
  have now: "500 * Minute \<le> 1000 * Minute" by (simp add: Minute_def)
  have "bookTicketsWithLock exactFloat64 sampleConfig (env_Clock (sampleEnv (500 * Minute)) 0)
          (sampleRequest 1) heldDb = Inr (?b, ?db2)"
    using book_heldDb [OF now] by (simp add: sampleEnv_def)
  then have booked: "BookTickets exactFloat64 sampleConfig (sampleEnv (500 * Minute))
      (sampleRequest 1) heldDb = ((Some ?b, None), ?db2)"
    by (rule BookTickets_ok)
  have "consistent (snd (BookTickets exactFloat64 sampleConfig (sampleEnv (500 * Minute))
      (sampleRequest 1) heldDb))"
    using consistent_sample(2) by (rule consistent_BookTickets)
  then have reserved: "consistent ?db2" by (simp add: booked)
  have live: "bk_Status ?b \<noteq> BookingCancelled" by (simp add: sampleBooking_fields)
  note trip = cancel_round_trip [OF consistent_sample(1) LockSeat_sample booked reserved
      reservedDb_facts(1), where ?t3.0 = "501 * Minute" and ?t4.0 = "502 * Minute",
      unfolded sampleBooking_fields(1,2)]
  from trip have ok: "fst (CancelBooking (501 * Minute) 1 ?db2) = Inr ()" by (elim conjE)
  from trip have "\<forall>i \<in> set [2]. \<exists>t \<in> set (tickets ?db3).
      tk_ID t = i \<and> tk_Status t = TicketAvailable"
    by (elim conjE)
  then have ids: "list_all (\<lambda>i. list_ex (\<lambda>t. tk_ID t = i \<and> tk_Status t = TicketAvailable)
      (tickets ?db3)) [2]"
    unfolding list_all_iff list_ex_iff .
  from trip have "\<forall>t \<in> set (tickets heldDb).
         seatMatches 1 ''S002'' t \<and> tk_ID t \<in> set [2]
         \<longrightarrow> (\<exists>t' \<in> set (tickets ?db3).
                seatMatches 1 ''S002'' t' \<and> tk_ID t' = tk_ID t \<and> tk_Status t' = TicketAvailable)"
    by (elim conjE)
  moreover have "sampleTicket 2 ''S002'' TicketLocked (10 * Minute) \<in> set (tickets heldDb)"
    by (simp add: heldDb_def)
  moreover have "seatMatches 1 ''S002'' (sampleTicket 2 ''S002'' TicketLocked (10 * Minute))
      \<and> tk_ID (sampleTicket 2 ''S002'' TicketLocked (10 * Minute)) \<in> set [2]"
    by (simp add: seatMatches_def sampleTicket_def)
  ultimately have "\<exists>t' \<in> set (tickets ?db3). seatMatches 1 ''S002'' t'
      \<and> tk_ID t' = tk_ID (sampleTicket 2 ''S002'' TicketLocked (10 * Minute))
      \<and> tk_Status t' = TicketAvailable"
    by blast
  then have seat: "list_ex (\<lambda>t. seatMatches 1 ''S002'' t \<and> tk_Status t = TicketAvailable)
      (tickets ?db3)"
    unfolding list_ex_iff by blast
  have c0: "map ev_AvailableTickets (events sampleDb) = [3]"
    by (simp add: sampleDb_def sampleEvent_def)
  have c2: "map ev_AvailableTickets (events ?db2) = [2]" by (simp add: reservedDb_def)
  from trip have "map ev_AvailableTickets (events ?db3) = map ev_AvailableTickets (events sampleDb)"
    by (elim conjE)
  then have c3: "map ev_AvailableTickets (events ?db3) = [3]" unfolding c0 .
  from trip have again: "CancelBooking (502 * Minute) 1 ?db3 = (Inl ErrBookingAlreadyCancelled, ?db3)"
    by (elim conjE)
  show ?thesis
    using consistent_sample(1) LockSeat_sample booked sampleBooking_fields(1,2) [of "500 * Minute"]
      c0 c2 reserved reservedDb_facts(1) [of "500 * Minute"] live ok ids seat c3 again
    by (intro conjI)
qed

end
